theory Spec2Isabelle
  imports Main "HOL-Library.Word"
begin

section \<open>The sparse vector \<open>savvy::compressed_vector\<close>\<close>

text \<open>
  \<open>compressed_vector<T>\<close> (include/savvy/compressed_vector.hpp) keeps three members:
  \<open>values_\<close>, \<open>offsets_\<close> (both \<open>std::vector\<close>) and the logical length \<open>size_\<close>.
  \<open>std::size_t\<close> offsets are natural numbers here: every offset the operations below
  compute is an index or a length that is handed in, none is the result of arithmetic
  that could wrap. The default value \<open>T()\<close> is \<open>0\<close>.
\<close>

record 'a compressed_vector =
  cv_values :: "'a list"
  cv_offsets :: "nat list"
  cv_size :: nat

text \<open>
  \<open>std::lower_bound(first, last, value)\<close> as the standard library implements it: the
  halving loop over the range \<open>[first, first + len)\<close>.
\<close>

function lower_bound_loop :: "nat list \<Rightarrow> nat \<Rightarrow> nat \<Rightarrow> nat \<Rightarrow> nat" where
  "lower_bound_loop xs v first len =
     (if 0 < len then
        (let half = len div 2; middle = first + half in
         if xs ! middle < v
         then lower_bound_loop xs v (middle + 1) (len - half - 1)
         else lower_bound_loop xs v first half)
      else first)"
  by pat_completeness auto
termination
  by (relation "measure (\<lambda>(xs, v, first, len). len)") auto

declare lower_bound_loop.simps [simp del]

definition lower_bound :: "nat list \<Rightarrow> nat \<Rightarrow> nat" where
  "lower_bound xs v = lower_bound_loop xs v 0 (length xs)"

text \<open>\<open>const value_type& operator[](std::size_t pos) const\<close>, the read access.\<close>

definition get :: "('a::zero) compressed_vector \<Rightarrow> nat \<Rightarrow> 'a" where
  "get v pos =
     (let it = lower_bound (cv_offsets v) pos in
      if it = length (cv_offsets v) \<or> cv_offsets v ! it \<noteq> pos then 0
      else cv_values v ! it)"

text \<open>
  \<open>value_type& operator[](std::size_t pos)\<close>, the write access. The reference it
  returns is the slot of \<open>values_\<close> it points into: the model returns the vector after
  the call together with the index of that slot.
\<close>

definition get_mut :: "('a::zero) compressed_vector \<Rightarrow> nat \<Rightarrow> 'a compressed_vector \<times> nat" where
  "get_mut v pos =
     (if cv_offsets v \<noteq> [] \<and> last (cv_offsets v) < pos then
        (v\<lparr>cv_offsets := cv_offsets v @ [pos], cv_values := cv_values v @ [0]\<rparr>,
         length (cv_values v))
      else
        (let it = lower_bound (cv_offsets v) pos in
         if it = length (cv_offsets v) \<or> cv_offsets v ! it \<noteq> pos then
           (v\<lparr>cv_offsets := take it (cv_offsets v) @ [pos] @ drop it (cv_offsets v),
              cv_values := take it (cv_values v) @ [0] @ drop it (cv_values v)\<rparr>, it)
         else (v, it)))"

text \<open>\<open>std::vector::resize(count, value)\<close>: truncate, or pad with copies of \<open>value\<close>.\<close>

definition vector_resize :: "'a list \<Rightarrow> nat \<Rightarrow> 'a \<Rightarrow> 'a list" where
  "vector_resize xs n x = take n xs @ replicate (n - length xs) x"

text \<open>The loop \<open>for (std::size_t i = size_; i < sz; ++i) offsets_[i] = i;\<close> of \<open>resize\<close>.\<close>

function resize_fill :: "nat list \<Rightarrow> nat \<Rightarrow> nat \<Rightarrow> nat list" where
  "resize_fill offs i sz = (if i < sz then resize_fill (offs[i := i]) (i + 1) sz else offs)"
  by pat_completeness auto
termination
  by (relation "measure (\<lambda>(offs, i, sz). sz - i)") auto

declare resize_fill.simps [simp del]

definition resize :: "('a::zero) compressed_vector \<Rightarrow> nat \<Rightarrow> 'a \<Rightarrow> 'a compressed_vector" where
  "resize v sz val =
     (if sz = 0 then
        v\<lparr>cv_offsets := [], cv_values := [], cv_size := sz\<rparr>
      else if sz < cv_size v then
        (let it = lower_bound (cv_offsets v) sz;
             offs = take it (cv_offsets v)
         in v\<lparr>cv_offsets := offs,
              cv_values := vector_resize (cv_values v) (length offs) 0,
              cv_size := sz\<rparr>)
      else if val \<noteq> 0 then
        (let vals = vector_resize (cv_values v) sz val;
             offs = vector_resize (cv_offsets v) sz 0
         in v\<lparr>cv_values := vals,
              cv_offsets := resize_fill offs (cv_size v) sz,
              cv_size := sz\<rparr>)
      else v\<lparr>cv_size := sz\<rparr>)"

definition clear :: "('a::zero) compressed_vector \<Rightarrow> 'a compressed_vector" where
  "clear v = resize v 0 0"

text \<open>
  \<open>assign(val_it, val_end)\<close>, from a dense sequence; \<open>i\<close> is \<open>it - val_it\<close>, and
  \<open>if (*it)\<close> is the test for a non-default value.
\<close>

fun assign_loop :: "('a::zero) list \<Rightarrow> nat \<Rightarrow> 'a compressed_vector \<Rightarrow> 'a compressed_vector" where
  "assign_loop [] i v = v"
| "assign_loop (x # xs) i v =
     assign_loop xs (i + 1)
       (if x \<noteq> 0 then v\<lparr>cv_values := cv_values v @ [x], cv_offsets := cv_offsets v @ [i]\<rparr>
        else v)"

definition assign :: "('a::zero) compressed_vector \<Rightarrow> 'a list \<Rightarrow> 'a compressed_vector" where
  "assign v xs = assign_loop xs 0 (v\<lparr>cv_size := length xs, cv_values := [], cv_offsets := []\<rparr>)"

text \<open>
  \<open>assign(val_it, val_end, off_it, sz)\<close>, from a sparse input: \<open>sp_sz = val_end - val_it\<close>
  values and as many offsets are copied. \<open>off_it\<close> has no end of its own; reading more
  offsets than the caller supplies is outside the language, and is \<open>None\<close> here.
\<close>

definition assign_sparse ::
  "'a compressed_vector \<Rightarrow> 'a list \<Rightarrow> nat list \<Rightarrow> nat \<Rightarrow> 'a compressed_vector option" where
  "assign_sparse v vals offs sz =
     (let sp_sz = length vals in
      if length offs < sp_sz then None
      else Some (v\<lparr>cv_size := sz, cv_values := vals, cv_offsets := take sp_sz offs\<rparr>))"

text \<open>
  \<open>dot(other, ret)\<close>: \<open>it\<close> and \<open>jt\<close> are the distances of the two iterators from
  \<open>offsets_.begin()\<close> and \<open>other.offsets_.begin()\<close>. Both only ever advance by one from
  the beginning, so \<open>it != offsets_.end()\<close> is \<open>it < length\<close>.
\<close>

function dot_loop ::
  "('a::{plus,times}) compressed_vector \<Rightarrow> 'a compressed_vector \<Rightarrow> nat \<Rightarrow> nat \<Rightarrow> 'a \<Rightarrow> 'a" where
  "dot_loop a b it jt ret =
     (if it < length (cv_offsets a) \<and> jt < length (cv_offsets b) then
        (if cv_offsets a ! it < cv_offsets b ! jt then dot_loop a b (it + 1) jt ret
         else if cv_offsets b ! jt < cv_offsets a ! it then dot_loop a b it (jt + 1) ret
         else dot_loop a b (it + 1) (jt + 1) (ret + cv_values a ! it * cv_values b ! jt))
      else ret)"
  by pat_completeness auto
termination
  by (relation "measure (\<lambda>(a, b, it, jt, ret).
        (length (cv_offsets a) - it) + (length (cv_offsets b) - jt))") auto

declare dot_loop.simps [simp del]

definition dot_agg ::
  "('a::{plus,times}) compressed_vector \<Rightarrow> 'a compressed_vector \<Rightarrow> 'a \<Rightarrow> 'a" where
  "dot_agg a other ret = dot_loop a other 0 0 ret"

definition dot :: "('a::{zero,plus,times}) compressed_vector \<Rightarrow> 'a compressed_vector \<Rightarrow> 'a" where
  "dot a other = dot_agg a other 0"

definition op_times :: "('a::{zero,plus,times}) compressed_vector \<Rightarrow> 'a compressed_vector \<Rightarrow> 'a" where
  "op_times a other = dot_agg a other 0"

text \<open>
  The invariant of the data model: \<open>offsets_\<close> strictly ascending, every offset below
  \<open>size_\<close>, and as many offsets as values.
\<close>

definition cv_invariant :: "'a compressed_vector \<Rightarrow> bool" where
  "cv_invariant v \<longleftrightarrow>
     sorted_wrt (<) (cv_offsets v)
     \<and> list_all (\<lambda>off. off < cv_size v) (cv_offsets v)
     \<and> length (cv_offsets v) = length (cv_values v)"

text \<open>The stored entries, as (offset, value) pairs in storage order.\<close>

definition entries :: "'a compressed_vector \<Rightarrow> (nat \<times> 'a) list" where
  "entries v = zip (cv_offsets v) (cv_values v)"

text \<open>
  The dense inner product of two vectors of logical length \<open>n\<close>, read through \<open>get\<close>
  and accumulated from offset 0 upwards.
\<close>

definition dense_dot ::
  "('a::{zero,plus,times}) compressed_vector \<Rightarrow> 'a compressed_vector \<Rightarrow> nat \<Rightarrow> 'a" where
  "dense_dot a b n = foldl (\<lambda>acc i. acc + get a i * get b i) 0 [0..<n]"

section \<open>The marker of the CMF container, \<open>vc::cmf::marker\<close>\<close>

text \<open>
  Modelled from the spec: the enumeration \<open>allele_status\<close> of the absent
  allele_status.hpp, "a three-valued enumeration per haplotype call: HAS_REF, HAS_ALT,
  IS_MISSING".
\<close>

datatype allele_status = is_missing | has_ref | has_alt

text \<open>\<open>marker::sparse_vector_allele\<close> and the members of \<open>marker\<close> (include/cmf_reader.hpp).\<close>

record sparse_vector_allele =
  offset :: "64 word"
  status :: allele_status

record marker =
  non_zero_haplotypes :: "sparse_vector_allele list"
  ref :: "8 word list"
  alt :: "8 word list"
  position :: "64 word"
  haplotype_count :: "64 word"

text \<open>
  The dense constructor \<open>marker(position, ref, alt, gt_beg, gt_end)\<close>. The loop carries
  the remaining input, the counter \<open>off\<close> and the vector built so far; \<open>reserve\<close> and
  \<open>shrink_to_fit\<close> change the capacity only.
\<close>

fun dense_ctor_loop ::
  "allele_status list \<Rightarrow> 64 word \<Rightarrow> sparse_vector_allele list \<Rightarrow> sparse_vector_allele list" where
  "dense_ctor_loop [] off nzh = nzh"
| "dense_ctor_loop (g # gs) off nzh =
     dense_ctor_loop gs (off + 1)
       (if g \<noteq> has_ref then nzh @ [\<lparr>offset = off, status = g\<rparr>] else nzh)"

definition marker_dense ::
  "64 word \<Rightarrow> 8 word list \<Rightarrow> 8 word list \<Rightarrow> allele_status list \<Rightarrow> marker" where
  "marker_dense pos r a gts =
     \<lparr>non_zero_haplotypes = dense_ctor_loop gts 0 [],
      ref = r, alt = a, position = pos,
      haplotype_count = of_nat (length gts)\<rparr>"

text \<open>
  The sparse constructor \<open>marker(position, ref, alt, gt_beg, gt_end, total_haplotype_count)\<close>
  throws a \<open>std::range_error\<close> in two places; the spec calls this error kind
  \<open>INVALID_INPUT\<close>. \<open>non_zero_haplotypes_.size()\<close> is the length of the vector, which
  always fits a \<open>std::size_t\<close>, so the comparison is made on natural numbers.
\<close>

datatype error = range_error string

fun sparse_ctor_loop ::
  "sparse_vector_allele list \<Rightarrow> sparse_vector_allele list \<Rightarrow> error + sparse_vector_allele list" where
  "sparse_ctor_loop [] nzh = Inr nzh"
| "sparse_ctor_loop (g # gs) nzh =
     (if status g \<noteq> has_ref then sparse_ctor_loop gs (nzh @ [g])
      else Inl (range_error ''FOOBAR''))"

definition marker_sparse ::
  "64 word \<Rightarrow> 8 word list \<Rightarrow> 8 word list \<Rightarrow> sparse_vector_allele list \<Rightarrow> 64 word
   \<Rightarrow> error + marker" where
  "marker_sparse pos r a gts total_haplotype_count =
     (case sparse_ctor_loop gts [] of
        Inl e \<Rightarrow> Inl e
      | Inr nzh \<Rightarrow>
          if unat total_haplotype_count < length nzh then Inl (range_error ''FOOBAR2'')
          else Inr \<lparr>non_zero_haplotypes = nzh, ref = r, alt = a, position = pos,
                    haplotype_count = total_haplotype_count\<rparr>)"

text \<open>
  \<open>marker::const_iterator\<close>: the range \<open>[ptr_, ptr_end_)\<close> of the sparse entries not yet
  passed, and the dense position \<open>i_\<close>.
\<close>

record const_iterator =
  it_ptr :: "sparse_vector_allele list"
  it_i :: "64 word"

definition increment :: "const_iterator \<Rightarrow> const_iterator" where
  "increment it =
     (let it' = (if it_ptr it \<noteq> [] \<and> it_i it = offset (hd (it_ptr it))
                 then it\<lparr>it_ptr := tl (it_ptr it)\<rparr> else it)
      in it'\<lparr>it_i := it_i it' + 1\<rparr>)"

definition deref :: "const_iterator \<Rightarrow> allele_status" where
  "deref it =
     (if it_ptr it \<noteq> [] \<and> it_i it = offset (hd (it_ptr it))
      then (if status (hd (it_ptr it)) = is_missing then is_missing else has_alt)
      else has_ref)"

definition it_neq :: "const_iterator \<Rightarrow> const_iterator \<Rightarrow> bool" where
  "it_neq it rhs \<longleftrightarrow> it_i it \<noteq> it_i rhs"

text \<open>
  Modelled from the spec: \<open>marker::begin()\<close>, declared in cmf_reader.hpp and defined in
  a file that is absent; "a dense cursor walking [0, haplotype_count) and consulting the
  sparse list by two-pointer advance". It starts at position 0 with all sparse entries
  ahead.
\<close>

definition marker_begin :: "marker \<Rightarrow> const_iterator" where
  "marker_begin m = \<lparr>it_ptr = non_zero_haplotypes m, it_i = 0\<rparr>"

text \<open>
  Modelled from the spec: \<open>marker::end()\<close>, declared in cmf_reader.hpp and defined in a
  file that is absent; the cursor of the spec at position \<open>haplotype_count\<close>, with no
  sparse entry ahead.
\<close>

definition marker_end :: "marker \<Rightarrow> const_iterator" where
  "marker_end m = \<lparr>it_ptr = [], it_i = haplotype_count m\<rparr>"

text \<open>
  Dense iteration, \<open>for (auto it = b; it != e; ++it) out.push_back(*it);\<close>.
  The position is a 64-bit counter, so the loop ends after at most \<open>2 ^ 64 - 1\<close> steps.
\<close>

function dense_iterate ::
  "const_iterator \<Rightarrow> const_iterator \<Rightarrow> allele_status list \<Rightarrow> allele_status list" where
  "dense_iterate it e out =
     (if it_neq it e then dense_iterate (increment it) e (out @ [deref it]) else out)"
  by pat_completeness auto
termination
proof (relation "measure (\<lambda>(it, e, out). unat (it_i e - it_i it))")
  show "wf (measure (\<lambda>(it, e, out). unat (it_i e - it_i it)))"
    by simp
next
  fix it e :: const_iterator and out :: "allele_status list"
  assume "it_neq it e"
  then have nz: "it_i e - it_i it \<noteq> 0"
    by (simp add: it_neq_def)
  have "it_i e - it_i (increment it) = it_i e - it_i it - 1"
    by (simp add: increment_def Let_def)
  moreover have "unat (it_i e - it_i it - 1) < unat (it_i e - it_i it)"
    using nz by (simp add: unat_minus_one unat_gt_0)
  ultimately have "unat (it_i e - it_i (increment it)) < unat (it_i e - it_i it)"
    by (simp only:)
  then show "((increment it, e, out @ [deref it]), (it, e, out))
      \<in> measure (\<lambda>(it, e, out). unat (it_i e - it_i it))"
    by simp
qed

declare dense_iterate.simps [simp del]

section \<open>Allele frequency, \<open>vc::cvcf::marker::calculate_allele_frequency\<close>\<close>

text \<open>
  Modelled from the spec: the entry type of \<open>vc::cvcf::marker\<close>, declared in an absent
  header; the sparse allele entry of the spec, with the status as the flag \<open>is_allele\<close>
  that src/cvcf_reader.cpp tests (set for \<open>HAS_ALT\<close>, clear for \<open>IS_MISSING\<close>).
\<close>

record cvcf_allele =
  is_allele :: bool
  hap_offset :: "64 word"

text \<open>
  Modelled from the spec: the members of \<open>vc::cvcf::marker\<close>, declared in an absent
  header, that src/cvcf_reader.cpp reads: the entries \<open>non_zero_haplotypes_\<close>, and
  \<open>sample_count_\<close> and \<open>ploidy_level_\<close>, whose product is the \<open>std::uint64_t\<close> count
  of haplotypes (samples times ploidy). The two factors have the widths of the like-named
  members in cmf_reader.hpp.
\<close>

record cvcf_marker =
  cvcf_non_zero_haplotypes :: "cvcf_allele list"
  sample_count :: "64 word"
  ploidy_level :: "8 word"

text \<open>
  The result is a \<open>double\<close>, the quotient of two 64-bit counters converted to
  \<open>double\<close>. The quotient is kept symbolic: \<open>Quotient a b\<close> is the IEEE 754 quotient of
  the converted \<open>a\<close> and non-zero \<open>b\<close>; dividing by zero gives \<open>NaN\<close> for \<open>0 / 0\<close>
  and \<open>Infinity\<close> otherwise.
\<close>

datatype double = NaN | Infinity | Quotient "64 word" "64 word"

definition double_div :: "64 word \<Rightarrow> 64 word \<Rightarrow> double" where
  "double_div a b = (if b = 0 then (if a = 0 then NaN else Infinity) else Quotient a b)"

fun allele_frequency_loop :: "cvcf_allele list \<Rightarrow> 64 word \<Rightarrow> 64 word \<Rightarrow> 64 word \<times> 64 word" where
  "allele_frequency_loop [] allele_cnt total_haplotypes = (allele_cnt, total_haplotypes)"
| "allele_frequency_loop (h # hs) allele_cnt total_haplotypes =
     (if is_allele h then allele_frequency_loop hs (allele_cnt + 1) total_haplotypes
      else allele_frequency_loop hs allele_cnt (total_haplotypes - 1))"

definition calculate_allele_frequency :: "cvcf_marker \<Rightarrow> double" where
  "calculate_allele_frequency m =
     (let (allele_cnt, total_haplotypes) =
            allele_frequency_loop (cvcf_non_zero_haplotypes m) 0
              (sample_count m * ucast (ploidy_level m))
      in double_div allele_cnt total_haplotypes)"

text \<open>The counts \<open>A\<close> and \<open>M\<close> of the spec, and the haplotype count the function uses.\<close>

definition alt_count :: "cvcf_marker \<Rightarrow> nat" where
  "alt_count m = length (filter is_allele (cvcf_non_zero_haplotypes m))"

definition missing_count :: "cvcf_marker \<Rightarrow> nat" where
  "missing_count m = length (filter (\<lambda>h. \<not> is_allele h) (cvcf_non_zero_haplotypes m))"

definition cvcf_haplotype_count :: "cvcf_marker \<Rightarrow> nat" where
  "cvcf_haplotype_count m = unat (sample_count m * ucast (ploidy_level m))"

section \<open>The writer of the CMF container, \<open>vc::cmf::writer\<close>\<close>

text \<open>
  The \<open>std::ostream\<close> the writer holds by reference: the bytes its sink has received
  and the three state bits. The sink takes every byte offered (a string or file buffer
  with room). \<open>std::ostream::write\<close> goes through a sentry, which writes nothing and
  sets \<open>failbit\<close> unless the stream is good; a \<open>std::ostreambuf_iterator\<close> puts its
  bytes into the buffer directly, whatever the state bits say.
\<close>

record ostream =
  os_bytes :: "8 word list"
  os_failbit :: bool
  os_badbit :: bool
  os_eofbit :: bool

definition good :: "ostream \<Rightarrow> bool" where
  "good os \<longleftrightarrow> \<not> os_failbit os \<and> \<not> os_badbit os \<and> \<not> os_eofbit os"

definition fail :: "ostream \<Rightarrow> bool" where
  "fail os \<longleftrightarrow> os_failbit os \<or> os_badbit os"

definition setstate_failbit :: "ostream \<Rightarrow> ostream" where
  "setstate_failbit os = os\<lparr>os_failbit := True\<rparr>"

definition ostream_write :: "ostream \<Rightarrow> 8 word list \<Rightarrow> ostream" where
  "ostream_write os s =
     (if good os then os\<lparr>os_bytes := os_bytes os @ s\<rparr> else setstate_failbit os)"

definition out_it_put :: "8 word \<Rightarrow> ostream \<Rightarrow> ostream" where
  "out_it_put c os = os\<lparr>os_bytes := os_bytes os @ [c]\<rparr>"

definition copy_out :: "8 word list \<Rightarrow> ostream \<Rightarrow> ostream" where
  "copy_out s os = fold out_it_put s os"

text \<open>
  Modelled from the spec: the encoding of \<open>varint_encode\<close> (absent varint.hpp), the codec
  with no prefix bits (P = 0): seven value bits per byte, least significant group first,
  the top bit of a byte set when more bytes follow.
\<close>

function varint_bytes :: "nat \<Rightarrow> 8 word list" where
  "varint_bytes n =
     (if n div 128 = 0 then [of_nat (n mod 128)]
      else of_nat (n mod 128 + 128) # varint_bytes (n div 128))"
  by pat_completeness auto
termination
  by (relation "measure (\<lambda>n. n)") auto

declare varint_bytes.simps [simp del]

text \<open>
  Modelled from the spec: the bytes \<open>varint_encode\<close> (absent varint.hpp) produces for a
  \<open>std::uint64_t\<close>.
\<close>

definition varint :: "64 word \<Rightarrow> 8 word list" where
  "varint input = varint_bytes (unat input)"

text \<open>
  Modelled from the spec: \<open>varint_encode(input, out_it)\<close> of the absent varint.hpp; the
  encoding goes to the byte sink through the iterator.
\<close>

definition varint_encode :: "64 word \<Rightarrow> ostream \<Rightarrow> ostream" where
  "varint_encode input os = copy_out (varint input) os"

record writer =
  output_stream :: ostream
  sample_size :: "64 word"
  writer_ploidy_level :: "8 word"

definition version_string :: "8 word list" where
  "version_string = [0x63, 0x76, 0x63, 0x66, 0x00, 0x01, 0x00, 0x00]"

text \<open>The body of the loop over the sample names in the constructor.\<close>

definition write_sample :: "8 word list \<Rightarrow> ostream \<Rightarrow> ostream" where
  "write_sample name os = ostream_write (varint_encode (of_nat (length name)) os) name"

definition writer_ctor :: "ostream \<Rightarrow> 8 word list \<Rightarrow> 8 word \<Rightarrow> 8 word list list \<Rightarrow> writer" where
  "writer_ctor os chromosome ploidy samples =
     (let os1 = ostream_write os version_string;
          os2 = varint_encode (of_nat (length chromosome)) os1;
          os3 = copy_out chromosome os2;
          os4 = varint_encode (ucast ploidy) os3;
          os5 = varint_encode (of_nat (length samples)) os4;
          os6 = fold write_sample samples os5;
          os7 = varint_encode 0 os6
      in \<lparr>output_stream = os7,
          sample_size = of_nat (length samples),
          writer_ploidy_level = ploidy\<rparr>)"

text \<open>
  \<open>writer::operator<<\<close>. \<open>marker::write\<close> is declared in cmf_reader.hpp and defined in
  an absent file; it is the parameter \<open>marker_write\<close>.
\<close>

definition op_shift_left ::
  "(ostream \<Rightarrow> marker \<Rightarrow> ostream) \<Rightarrow> writer \<Rightarrow> marker \<Rightarrow> writer" where
  "op_shift_left marker_write w m =
     (if good (output_stream w) then
        (if haplotype_count m \<noteq> sample_size w * ucast (writer_ploidy_level w)
         then w\<lparr>output_stream := setstate_failbit (output_stream w)\<rparr>
         else w\<lparr>output_stream := marker_write (output_stream w) m\<rparr>)
      else w)"

text \<open>A sequence of calls \<open>w << m1 << m2 << ...\<close>.\<close>

fun write_all :: "(ostream \<Rightarrow> marker \<Rightarrow> ostream) \<Rightarrow> writer \<Rightarrow> marker list \<Rightarrow> writer" where
  "write_all marker_write w [] = w"
| "write_all marker_write w (m # ms) = write_all marker_write (op_shift_left marker_write w m) ms"

section \<open>Properties of the sparse vector\<close>

subsection \<open>Binary search on an ascending sequence\<close>

lemma lower_bound_loop_spec:
  assumes "sorted xs" and "first + len \<le> length xs"
    and "\<forall>i<first. xs ! i < v"
    and "\<forall>i. first + len \<le> i \<and> i < length xs \<longrightarrow> v \<le> xs ! i"
  shows "first \<le> lower_bound_loop xs v first len
       \<and> lower_bound_loop xs v first len \<le> first + len
       \<and> (\<forall>i<lower_bound_loop xs v first len. xs ! i < v)
       \<and> (\<forall>i. lower_bound_loop xs v first len \<le> i \<and> i < length xs \<longrightarrow> v \<le> xs ! i)"
  using assms
proof (induction xs v first len rule: lower_bound_loop.induct)
  case (1 xs v first len)
  show ?case
  proof (cases "0 < len")
    case False
    then have unf: "lower_bound_loop xs v first len = first"
      by (subst lower_bound_loop.simps) simp
    show ?thesis
      unfolding unf using False "1.prems" by simp
  next
    case True
    define half where "half = len div 2"
    define middle where "middle = first + half"
    have mid: "middle < length xs" "half < len"
      using True "1.prems"(2) by (auto simp: half_def middle_def)
    show ?thesis
    proof (cases "xs ! middle < v")
      case lt: True
      have below: "\<forall>i<middle + 1. xs ! i < v"
      proof (intro allI impI)
        fix i assume "i < middle + 1"
        then have "i \<le> middle" by simp
        then have "xs ! i \<le> xs ! middle"
          using \<open>sorted xs\<close> mid(1) by (simp add: sorted_nth_mono)
        with lt show "xs ! i < v" by simp
      qed
      have eq: "middle + 1 + (len - half - 1) = first + len"
        using mid(2) by (simp add: middle_def)
      have IH: "middle + 1 \<le> lower_bound_loop xs v (middle + 1) (len - half - 1)
         \<and> lower_bound_loop xs v (middle + 1) (len - half - 1) \<le> middle + 1 + (len - half - 1)
         \<and> (\<forall>i<lower_bound_loop xs v (middle + 1) (len - half - 1). xs ! i < v)
         \<and> (\<forall>i. lower_bound_loop xs v (middle + 1) (len - half - 1) \<le> i \<and> i < length xs
               \<longrightarrow> v \<le> xs ! i)"
        using "1.IH"(1) [OF True half_def middle_def lt \<open>sorted xs\<close> _ below]
          "1.prems"(2,4) eq by simp
      have unf: "lower_bound_loop xs v first len
                 = lower_bound_loop xs v (middle + 1) (len - half - 1)"
        using True lt
        by (subst lower_bound_loop.simps) (simp add: half_def middle_def Let_def)
      show ?thesis
        unfolding unf using IH eq by (simp add: middle_def)
    next
      case ge: False
      have above: "\<forall>i. first + half \<le> i \<and> i < length xs \<longrightarrow> v \<le> xs ! i"
      proof (intro allI impI)
        fix i assume "first + half \<le> i \<and> i < length xs"
        then have "xs ! middle \<le> xs ! i"
          using \<open>sorted xs\<close> by (simp add: sorted_nth_mono middle_def)
        with ge show "v \<le> xs ! i" by simp
      qed
      have le: "first + half \<le> length xs"
        using mid(1) by (simp add: middle_def)
      have IH: "first \<le> lower_bound_loop xs v first half
         \<and> lower_bound_loop xs v first half \<le> first + half
         \<and> (\<forall>i<lower_bound_loop xs v first half. xs ! i < v)
         \<and> (\<forall>i. lower_bound_loop xs v first half \<le> i \<and> i < length xs \<longrightarrow> v \<le> xs ! i)"
        using "1.IH"(2) [OF True half_def middle_def ge \<open>sorted xs\<close> le "1.prems"(3) above] .
      have unf: "lower_bound_loop xs v first len = lower_bound_loop xs v first half"
        using True ge
        by (subst lower_bound_loop.simps) (simp add: half_def middle_def Let_def)
      show ?thesis
        unfolding unf using IH mid(2) by simp
    qed
  qed
qed

lemma lower_bound_loop_bounds:
  "first \<le> lower_bound_loop xs v first len \<and> lower_bound_loop xs v first len \<le> first + len"
proof (induction xs v first len rule: lower_bound_loop.induct)
  case (1 xs v first len)
  show ?case
  proof (cases "0 < len")
    case False
    then show ?thesis by (subst (1 2) lower_bound_loop.simps) simp
  next
    case True
    define half where "half = len div 2"
    define middle where "middle = first + half"
    have h: "half < len" using True by (simp add: half_def)
    show ?thesis
    proof (cases "xs ! middle < v")
      case lt: True
      have unf: "lower_bound_loop xs v first len
                 = lower_bound_loop xs v (middle + 1) (len - half - 1)"
        using True lt
        by (subst lower_bound_loop.simps) (simp add: half_def middle_def Let_def)
      show ?thesis
        unfolding unf using "1.IH"(1) [OF True half_def middle_def lt] h
        by (simp add: middle_def)
    next
      case ge: False
      have unf: "lower_bound_loop xs v first len = lower_bound_loop xs v first half"
        using True ge
        by (subst lower_bound_loop.simps) (simp add: half_def middle_def Let_def)
      show ?thesis
        unfolding unf using "1.IH"(2) [OF True half_def middle_def ge] h by simp
    qed
  qed
qed

lemma lower_bound_le_length: "lower_bound xs v \<le> length xs"
  using lower_bound_loop_bounds [of 0 xs v "length xs"] by (simp add: lower_bound_def)

lemma lower_bound_spec:
  assumes "sorted xs"
  shows "lower_bound xs v \<le> length xs
       \<and> (\<forall>i<lower_bound xs v. xs ! i < v)
       \<and> (\<forall>i. lower_bound xs v \<le> i \<and> i < length xs \<longrightarrow> v \<le> xs ! i)"
  using lower_bound_loop_spec [of xs 0 "length xs" v] assms
  by (simp add: lower_bound_def)


lemma take_lower_bound:
  assumes "sorted xs"
  shows "take (lower_bound xs v) xs = filter (\<lambda>x. x < v) xs"
proof -
  let ?r = "lower_bound xs v"
  note sp = lower_bound_spec [OF assms, of v]
  have a: "\<forall>x\<in>set (take ?r xs). x < v"
    using sp by (auto simp: in_set_conv_nth)
  have b: "\<forall>x\<in>set (drop ?r xs). \<not> x < v"
    using sp by (auto simp: in_set_conv_nth not_less)
  have "filter (\<lambda>x. x < v) xs = filter (\<lambda>x. x < v) (take ?r xs @ drop ?r xs)"
    by simp
  also have "\<dots> = take ?r xs"
    using a b by (simp only: filter_append) (simp add: filter_empty_conv)
  finally show ?thesis by simp
qed

lemma drop_lower_bound:
  assumes "sorted xs"
  shows "drop (lower_bound xs v) xs = filter (\<lambda>x. v \<le> x) xs"
proof -
  let ?r = "lower_bound xs v"
  note sp = lower_bound_spec [OF assms, of v]
  have a: "\<forall>x\<in>set (take ?r xs). \<not> v \<le> x"
    using sp by (auto simp: in_set_conv_nth not_le)
  have b: "\<forall>x\<in>set (drop ?r xs). v \<le> x"
    using sp by (auto simp: in_set_conv_nth)
  have "filter (\<lambda>x. v \<le> x) xs = filter (\<lambda>x. v \<le> x) (take ?r xs @ drop ?r xs)"
    by simp
  also have "\<dots> = drop ?r xs"
    using a b by (simp only: filter_append) (simp add: filter_empty_conv)
  finally show ?thesis by simp
qed

lemma lower_bound_stored:
  assumes "sorted_wrt (<) xs" and "k < length xs"
  shows "lower_bound xs (xs ! k) = k"
proof -
  let ?r = "lower_bound xs (xs ! k)"
  note sp = lower_bound_spec [OF strict_sorted_imp_sorted [OF assms(1)], of "xs ! k"]
  have "\<not> k < ?r"
    using sp by auto
  moreover have "\<not> ?r < k"
  proof
    assume lt: "?r < k"
    then have "xs ! ?r < xs ! k"
      using assms by (simp add: sorted_wrt_nth_less)
    moreover have "xs ! k \<le> xs ! ?r"
      using sp lt assms(2) by auto
    ultimately show False by simp
  qed
  ultimately show ?thesis by simp
qed

lemma get_stored:
  assumes "sorted_wrt (<) (cv_offsets v)" and "k < length (cv_offsets v)"
    and "cv_offsets v ! k = i"
  shows "get v i = cv_values v ! k"
  using lower_bound_stored [OF assms(1,2)] assms(2,3)
  by (simp add: get_def Let_def)

lemma get_absent:
  assumes "i \<notin> set (cv_offsets v)"
  shows "get v i = 0"
proof -
  have "lower_bound (cv_offsets v) i < length (cv_offsets v)
        \<Longrightarrow> cv_offsets v ! lower_bound (cv_offsets v) i \<noteq> i"
    using assms nth_mem by metis
  then show ?thesis
    using lower_bound_le_length [of "cv_offsets v" i]
    by (auto simp: get_def Let_def)
qed

subsection \<open>Read access\<close>

text \<open>
  C8. On a vector whose offsets are strictly ascending and paired with values, the read
  access \<open>get v i\<close> (the const \<open>operator[]\<close>) returns \<open>values[k]\<close> when
  \<open>offsets[k] = i\<close> for some \<open>k\<close>, and the default value \<open>T()\<close> when no stored offset
  equals \<open>i\<close>. The access is a const member function: it is a function of the vector
  alone and returns no new vector, so the vector is unchanged.
\<close>

theorem get_returns_stored_or_default:
  assumes "sorted_wrt (<) (cv_offsets v)"
    and "length (cv_offsets v) = length (cv_values v)"
  shows "(\<forall>k<length (cv_values v). cv_offsets v ! k = i \<longrightarrow> get v i = cv_values v ! k)
       \<and> (i \<notin> set (cv_offsets v) \<longrightarrow> get v i = 0)"
  using assms by (simp add: get_stored get_absent)

theorem get_returns_stored_or_default_witness:
  "sorted_wrt (<) (cv_offsets \<lparr>cv_values = [5, 7, 9 :: int], cv_offsets = [1, 4, 6], cv_size = 8\<rparr>)
   \<and> get \<lparr>cv_values = [5, 7, 9 :: int], cv_offsets = [1, 4, 6], cv_size = 8\<rparr> 4 = 7
   \<and> get \<lparr>cv_values = [5, 7, 9 :: int], cv_offsets = [1, 4, 6], cv_size = 8\<rparr> 5 = 0"
proof -
  let ?v = "\<lparr>cv_values = [5, 7, 9 :: int], cv_offsets = [1, 4, 6], cv_size = 8\<rparr>"
  have h1: "sorted_wrt (<) (cv_offsets ?v)" by simp
  have h2: "length (cv_offsets ?v) = length (cv_values ?v)" by simp
  have "1 < length (cv_values ?v) \<and> cv_offsets ?v ! 1 = 4" by simp
  with get_returns_stored_or_default [OF h1 h2, of 4]
  have a: "get ?v 4 = cv_values ?v ! 1" by blast
  have "5 \<notin> set (cv_offsets ?v)" by simp
  with get_returns_stored_or_default [OF h1 h2, of 5]
  have b: "get ?v 5 = 0" by blast
  from h1 a b show ?thesis by simp
qed

subsection \<open>Write access\<close>

lemma sorted_le_last: "sorted xs \<Longrightarrow> x \<in> set xs \<Longrightarrow> x \<le> last (xs::nat list)"
  by (induction xs) auto

lemma get_mut_eq:
  assumes S: "sorted_wrt (<) (cv_offsets v)"
    and L: "length (cv_offsets v) = length (cv_values v)"
  shows "get_mut v pos =
     (let it = lower_bound (cv_offsets v) pos in
      if pos \<in> set (cv_offsets v) then (v, it)
      else (v\<lparr>cv_offsets := take it (cv_offsets v) @ [pos] @ drop it (cv_offsets v),
              cv_values := take it (cv_values v) @ [0] @ drop it (cv_values v)\<rparr>, it))"
proof (cases "pos \<in> set (cv_offsets v)")
  case True
  then obtain k where k: "k < length (cv_offsets v)" "cv_offsets v ! k = pos"
    by (auto simp: in_set_conv_nth)
  have lb: "lower_bound (cv_offsets v) pos = k"
    using lower_bound_stored [OF S k(1)] k(2) by simp
  have "cv_offsets v \<noteq> []" using k(1) by auto
  moreover have "pos \<le> last (cv_offsets v)"
    using sorted_le_last [OF strict_sorted_imp_sorted [OF S] True] .
  ultimately show ?thesis
    using True lb k by (simp add: get_mut_def Let_def)
next
  case False
  let ?it = "lower_bound (cv_offsets v) pos"
  have ne: "?it = length (cv_offsets v) \<or> cv_offsets v ! ?it \<noteq> pos"
  proof (cases "?it = length (cv_offsets v)")
    case True
    then show ?thesis by simp
  next
    case False
    then have "?it < length (cv_offsets v)"
      using lower_bound_le_length [of "cv_offsets v" pos] by simp
    then have "cv_offsets v ! ?it \<in> set (cv_offsets v)"
      by (rule nth_mem)
    with \<open>pos \<notin> set (cv_offsets v)\<close> show ?thesis by auto
  qed
  show ?thesis
  proof (cases "cv_offsets v \<noteq> [] \<and> last (cv_offsets v) < pos")
    case app: True
    have "\<forall>x\<in>set (cv_offsets v). x < pos"
      using sorted_le_last [OF strict_sorted_imp_sorted [OF S]] app by fastforce
    then have "filter (\<lambda>x. x < pos) (cv_offsets v) = cv_offsets v"
      by simp
    then have "take ?it (cv_offsets v) = cv_offsets v"
      using take_lower_bound [OF strict_sorted_imp_sorted [OF S], of pos] by simp
    then have "length (cv_offsets v) \<le> ?it"
      by (metis length_take min.cobounded2 min_def order_refl take_all_iff)
    then have it: "?it = length (cv_offsets v)"
      using lower_bound_le_length [of "cv_offsets v" pos] by simp
    show ?thesis
      using False app it L by (simp add: get_mut_def Let_def)
  next
    case napp: False
    show ?thesis
      using False napp ne by (auto simp: get_mut_def Let_def)
  qed
qed

lemma sorted_insert_at_lower_bound:
  assumes S: "sorted_wrt (<) xs" and N: "pos \<notin> set xs"
  shows "sorted_wrt (<) (take (lower_bound xs pos) xs @ [pos] @ drop (lower_bound xs pos) xs)"
proof -
  have s: "sorted xs" using S by (rule strict_sorted_imp_sorted)
  have "sorted_wrt (<) (filter (\<lambda>x. x < pos) xs @ [pos] @ filter (\<lambda>x. pos \<le> x) xs)"
  proof -
    have "\<forall>x\<in>set xs. pos \<le> x \<longrightarrow> pos < x"
      using N by (auto simp: le_less)
    then show ?thesis
      using S by (auto simp: sorted_wrt_append sorted_wrt_filter)
  qed
  then show ?thesis
    by (simp only: take_lower_bound [OF s] drop_lower_bound [OF s])
qed

lemma get_mut_sorted:
  assumes S: "sorted_wrt (<) (cv_offsets v)"
    and L: "length (cv_offsets v) = length (cv_values v)"
  shows "sorted_wrt (<) (cv_offsets (fst (get_mut v pos)))"
  using S sorted_insert_at_lower_bound [OF S, of pos]
  by (simp add: get_mut_eq [OF S L] Let_def)

lemma get_mut_length:
  assumes S: "sorted_wrt (<) (cv_offsets v)"
    and L: "length (cv_offsets v) = length (cv_values v)"
  shows "length (cv_offsets (fst (get_mut v pos))) = length (cv_values (fst (get_mut v pos)))"
  using L by (simp add: get_mut_eq [OF S L] Let_def)

lemma get_mut_size: "cv_size (fst (get_mut v pos)) = cv_size v"
  by (simp add: get_mut_def Let_def)

lemma get_mut_set:
  assumes S: "sorted_wrt (<) (cv_offsets v)"
    and L: "length (cv_offsets v) = length (cv_values v)"
  shows "set (cv_offsets (fst (get_mut v pos))) = insert pos (set (cv_offsets v))"
proof -
  have "set (take (lower_bound (cv_offsets v) pos) (cv_offsets v))
        \<union> set (drop (lower_bound (cv_offsets v) pos) (cv_offsets v)) = set (cv_offsets v)"
    by (metis append_take_drop_id set_append)
  then show ?thesis
    by (auto simp: get_mut_eq [OF S L] Let_def)
qed

lemma get_mut_invariant:
  assumes "cv_invariant v" and "pos < cv_size v"
  shows "cv_invariant (fst (get_mut v pos))"
proof -
  have S: "sorted_wrt (<) (cv_offsets v)"
    and L: "length (cv_offsets v) = length (cv_values v)"
    and B: "\<forall>x\<in>set (cv_offsets v). x < cv_size v"
    using assms(1) by (simp_all add: cv_invariant_def list_all_iff)
  show ?thesis
    unfolding cv_invariant_def list_all_iff
    using get_mut_sorted [OF S L] get_mut_length [OF S L] B assms(2)
    by (simp add: get_mut_set [OF S L] get_mut_size)
qed

lemma get_mut_slot:
  assumes S: "sorted_wrt (<) (cv_offsets v)"
    and L: "length (cv_offsets v) = length (cv_values v)"
  shows "snd (get_mut v pos) < length (cv_values (fst (get_mut v pos)))
       \<and> cv_offsets (fst (get_mut v pos)) ! snd (get_mut v pos) = pos"
proof (cases "pos \<in> set (cv_offsets v)")
  case True
  then obtain k where k: "k < length (cv_offsets v)" "cv_offsets v ! k = pos"
    by (auto simp: in_set_conv_nth)
  have "lower_bound (cv_offsets v) pos = k"
    using lower_bound_stored [OF S k(1)] k(2) by simp
  then show ?thesis
    using True k L by (simp add: get_mut_eq [OF S L] Let_def)
next
  case False
  have "lower_bound (cv_offsets v) pos \<le> length (cv_offsets v)"
    by (rule lower_bound_le_length)
  then show ?thesis
    using False L by (simp add: get_mut_eq [OF S L] Let_def nth_append)
qed

lemma get_map_of:
  assumes S: "sorted_wrt (<) (cv_offsets v)"
    and L: "length (cv_offsets v) = length (cv_values v)"
  shows "get v i = (case map_of (entries v) i of Some x \<Rightarrow> x | None \<Rightarrow> 0)"
proof (cases "i \<in> set (cv_offsets v)")
  case True
  then obtain k where k: "k < length (cv_offsets v)" "cv_offsets v ! k = i"
    by (auto simp: in_set_conv_nth)
  have d: "distinct (cv_offsets v)"
    using S by (simp add: strict_sorted_iff)
  have "map_of (zip (cv_offsets v) (cv_values v)) (cv_offsets v ! k) = Some (cv_values v ! k)"
    using L d k(1) by (intro map_of_zip_nth) simp_all
  then show ?thesis
    using get_stored [OF S k] k(2) by (simp add: entries_def)
next
  case False
  then have "map_of (zip (cv_offsets v) (cv_values v)) i = None"
    using L by simp
  then show ?thesis
    using get_absent [OF False] by (simp add: entries_def)
qed

lemma get_mut_get_other:
  assumes S: "sorted_wrt (<) (cv_offsets v)"
    and L: "length (cv_offsets v) = length (cv_values v)"
    and "j \<noteq> pos"
  shows "get (fst (get_mut v pos)) j = get v j"
proof (cases "pos \<in> set (cv_offsets v)")
  case True
  then show ?thesis by (simp add: get_mut_eq [OF S L] Let_def)
next
  case False
  let ?it = "lower_bound (cv_offsets v) pos"
  let ?v' = "fst (get_mut v pos)"
  have e: "entries ?v' = take ?it (entries v) @ [(pos, 0)] @ drop ?it (entries v)"
    using False L lower_bound_le_length [of "cv_offsets v" pos]
    by (simp add: get_mut_eq [OF S L] Let_def entries_def take_zip drop_zip)
  have "map_of (xs @ [(pos, 0)] @ ys) j = map_of (xs @ ys) j" for xs ys :: "(nat \<times> 'a) list"
    using assms(3) by (auto simp: map_add_def split: option.splits)
  then have "map_of (entries ?v') j = map_of (take ?it (entries v) @ drop ?it (entries v)) j"
    unfolding e .
  then have "map_of (entries ?v') j = map_of (entries v) j"
    by simp
  then show ?thesis
    by (simp add: get_map_of [OF S L]
        get_map_of [OF get_mut_sorted [OF S L] get_mut_length [OF S L]])
qed

text \<open>
  C10. The write access \<open>operator[]\<close> is total in the index. On a vector whose offsets
  are strictly ascending and paired with values, for every index \<open>i\<close> the call returns
  a reference to the value stored at offset \<open>i\<close>; the logical size is unchanged; if an
  entry at \<open>i\<close> existed the vector is unchanged; otherwise a default-constructed entry
  is inserted at the sorted position (appended when \<open>i\<close> is greater than the last
  stored offset), and every other offset reads as before. The index is not compared with
  the logical size: with \<open>i \<ge> size\<close> the call succeeds and the vector then stores an
  offset that is not below its size.
\<close>

theorem get_mut_total:
  assumes "sorted_wrt (<) (cv_offsets v)"
    and "length (cv_offsets v) = length (cv_values v)"
  shows "cv_size (fst (get_mut v i)) = cv_size v
       \<and> snd (get_mut v i) < length (cv_values (fst (get_mut v i)))
       \<and> cv_offsets (fst (get_mut v i)) ! snd (get_mut v i) = i
       \<and> (i \<in> set (cv_offsets v) \<longrightarrow> fst (get_mut v i) = v)
       \<and> (i \<notin> set (cv_offsets v) \<longrightarrow>
            cv_offsets (fst (get_mut v i))
              = take (snd (get_mut v i)) (cv_offsets v) @ [i]
                @ drop (snd (get_mut v i)) (cv_offsets v)
          \<and> cv_values (fst (get_mut v i))
              = take (snd (get_mut v i)) (cv_values v) @ [0]
                @ drop (snd (get_mut v i)) (cv_values v))
       \<and> (cv_offsets v \<noteq> [] \<and> last (cv_offsets v) < i \<longrightarrow>
            cv_offsets (fst (get_mut v i)) = cv_offsets v @ [i]
          \<and> cv_values (fst (get_mut v i)) = cv_values v @ [0])
       \<and> sorted_wrt (<) (cv_offsets (fst (get_mut v i)))
       \<and> length (cv_offsets (fst (get_mut v i))) = length (cv_values (fst (get_mut v i)))
       \<and> (\<forall>j. j \<noteq> i \<longrightarrow> get (fst (get_mut v i)) j = get v j)
       \<and> (cv_size v \<le> i \<longrightarrow> (\<exists>off\<in>set (cv_offsets (fst (get_mut v i))). cv_size v \<le> off))"
proof -
  note S = assms(1) and L = assms(2)
  have a: "cv_size (fst (get_mut v i)) = cv_size v"
    by (rule get_mut_size)
  have b: "snd (get_mut v i) < length (cv_values (fst (get_mut v i)))
         \<and> cv_offsets (fst (get_mut v i)) ! snd (get_mut v i) = i"
    by (rule get_mut_slot [OF S L])
  have c: "i \<in> set (cv_offsets v) \<longrightarrow> fst (get_mut v i) = v"
    by (simp add: get_mut_eq [OF S L] Let_def)
  have d: "i \<notin> set (cv_offsets v) \<longrightarrow>
            cv_offsets (fst (get_mut v i))
              = take (snd (get_mut v i)) (cv_offsets v) @ [i]
                @ drop (snd (get_mut v i)) (cv_offsets v)
          \<and> cv_values (fst (get_mut v i))
              = take (snd (get_mut v i)) (cv_values v) @ [0]
                @ drop (snd (get_mut v i)) (cv_values v)"
    by (simp add: get_mut_eq [OF S L] Let_def)
  have e: "cv_offsets v \<noteq> [] \<and> last (cv_offsets v) < i \<longrightarrow>
            cv_offsets (fst (get_mut v i)) = cv_offsets v @ [i]
          \<and> cv_values (fst (get_mut v i)) = cv_values v @ [0]"
    by (simp add: get_mut_def)
  have f: "sorted_wrt (<) (cv_offsets (fst (get_mut v i)))"
    by (rule get_mut_sorted [OF S L])
  have g: "length (cv_offsets (fst (get_mut v i))) = length (cv_values (fst (get_mut v i)))"
    by (rule get_mut_length [OF S L])
  have h: "\<forall>j. j \<noteq> i \<longrightarrow> get (fst (get_mut v i)) j = get v j"
    by (simp add: get_mut_get_other [OF S L])
  have k: "cv_size v \<le> i \<longrightarrow> (\<exists>off\<in>set (cv_offsets (fst (get_mut v i))). cv_size v \<le> off)"
    by (auto simp: get_mut_set [OF S L])
  from a b c d e f g h k show ?thesis
    by blast
qed

theorem get_mut_total_witness:
  "sorted_wrt (<) (cv_offsets \<lparr>cv_values = [5, 7 :: int], cv_offsets = [1, 4], cv_size = 6\<rparr>)
   \<and> length (cv_offsets \<lparr>cv_values = [5, 7 :: int], cv_offsets = [1, 4], cv_size = 6\<rparr>)
     = length (cv_values \<lparr>cv_values = [5, 7 :: int], cv_offsets = [1, 4], cv_size = 6\<rparr>)
   \<and> cv_offsets (fst (get_mut \<lparr>cv_values = [5, 7 :: int], cv_offsets = [1, 4], cv_size = 6\<rparr> 9))
     = [1, 4, 9]
   \<and> cv_values (fst (get_mut \<lparr>cv_values = [5, 7 :: int], cv_offsets = [1, 4], cv_size = 6\<rparr> 9))
     = [5, 7, 0]
   \<and> cv_size (fst (get_mut \<lparr>cv_values = [5, 7 :: int], cv_offsets = [1, 4], cv_size = 6\<rparr> 9)) = 6"
proof -
  let ?v = "\<lparr>cv_values = [5, 7 :: int], cv_offsets = [1, 4], cv_size = 6\<rparr>"
  have h1: "sorted_wrt (<) (cv_offsets ?v)" by simp
  have h2: "length (cv_offsets ?v) = length (cv_values ?v)" by simp
  have h3: "cv_offsets ?v \<noteq> [] \<and> last (cv_offsets ?v) < 9" by simp
  from get_mut_total [OF h1 h2, of 9] h3
  have "cv_size (fst (get_mut ?v 9)) = cv_size ?v
      \<and> cv_offsets (fst (get_mut ?v 9)) = cv_offsets ?v @ [9]
      \<and> cv_values (fst (get_mut ?v 9)) = cv_values ?v @ [0]"
    by blast
  with h1 h2 show ?thesis by simp
qed

subsection \<open>Resizing, assignment and the invariant\<close>

lemma resize_fill_eq:
  "i \<le> sz \<Longrightarrow> length offs = sz \<Longrightarrow> resize_fill offs i sz = take i offs @ [i..<sz]"
proof (induction offs i sz rule: resize_fill.induct)
  case (1 offs i sz)
  show ?case
  proof (cases "i < sz")
    case True
    have "resize_fill offs i sz = resize_fill (offs[i := i]) (i + 1) sz"
      using True by (subst resize_fill.simps) simp
    also have "\<dots> = take (i + 1) (offs[i := i]) @ [i + 1..<sz]"
      using "1.IH" [OF True] True "1.prems" by simp
    also have "take (i + 1) (offs[i := i]) = take i offs @ [i]"
      using True "1.prems" by (simp add: take_Suc_conv_app_nth)
    finally show ?thesis
      using True by (simp add: upt_conv_Cons)
  next
    case False
    then have "resize_fill offs i sz = offs"
      by (subst resize_fill.simps) simp
    then show ?thesis
      using False "1.prems" by simp
  qed
qed

lemma length_vector_resize: "length (vector_resize xs n x) = n"
  by (simp add: vector_resize_def)

lemma resize_zero: "resize v 0 val = v\<lparr>cv_offsets := [], cv_values := [], cv_size := 0\<rparr>"
  by (simp add: resize_def)

lemma resize_shrink:
  assumes "sorted_wrt (<) (cv_offsets v)" and "0 < sz" and "sz < cv_size v"
  shows "resize v sz val =
     v\<lparr>cv_offsets := filter (\<lambda>off. off < sz) (cv_offsets v),
       cv_values := vector_resize (cv_values v) (length (filter (\<lambda>off. off < sz) (cv_offsets v))) 0,
       cv_size := sz\<rparr>"
proof -
  have t: "take (lower_bound (cv_offsets v) sz) (cv_offsets v)
           = filter (\<lambda>off. off < sz) (cv_offsets v)"
    by (rule take_lower_bound [OF strict_sorted_imp_sorted [OF assms(1)]])
  show ?thesis
    using assms(2,3) unfolding resize_def Let_def t by simp
qed

lemma resize_grow_default:
  assumes "0 < sz" and "cv_size v \<le> sz"
  shows "resize v sz 0 = v\<lparr>cv_size := sz\<rparr>"
  using assms by (simp add: resize_def)

lemma resize_grow_fill:
  assumes "length (cv_offsets v) = length (cv_values v)"
    and "length (cv_values v) \<le> cv_size v" and "cv_size v \<le> sz" and "0 < sz" and "val \<noteq> 0"
  shows "resize v sz val =
     v\<lparr>cv_values := cv_values v @ replicate (sz - length (cv_values v)) val,
       cv_offsets := cv_offsets v @ replicate (cv_size v - length (cv_values v)) 0
                     @ [cv_size v..<sz],
       cv_size := sz\<rparr>"
proof -
  let ?k = "length (cv_values v)"
  have a: "vector_resize (cv_values v) sz val = cv_values v @ replicate (sz - ?k) val"
    using assms(2,3) by (simp add: vector_resize_def)
  have b: "vector_resize (cv_offsets v) sz 0 = cv_offsets v @ replicate (sz - ?k) 0"
    using assms(1,2,3) by (simp add: vector_resize_def)
  have "resize_fill (cv_offsets v @ replicate (sz - ?k) 0) (cv_size v) sz
        = take (cv_size v) (cv_offsets v @ replicate (sz - ?k) 0) @ [cv_size v..<sz]"
    using assms(1,2,3) by (intro resize_fill_eq) simp_all
  also have "take (cv_size v) (cv_offsets v @ replicate (sz - ?k) 0)
        = cv_offsets v @ replicate (cv_size v - ?k) 0"
    using assms(1,2,3) by (simp add: min_def)
  finally show ?thesis
    using assms(3,4,5) by (simp add: resize_def Let_def a b)
qed
lemma resize_invariant:
  assumes "cv_invariant v" and "sz = 0 \<or> sz < cv_size v \<or> val = 0"
  shows "cv_invariant (resize v sz val)"
proof -
  have S: "sorted_wrt (<) (cv_offsets v)"
    and L: "length (cv_offsets v) = length (cv_values v)"
    and B: "\<forall>x\<in>set (cv_offsets v). x < cv_size v"
    using assms(1) by (simp_all add: cv_invariant_def list_all_iff)
  consider "sz = 0" | "0 < sz" "sz < cv_size v" | "0 < sz" "cv_size v \<le> sz" "val = 0"
    using assms(2) by fastforce
  then show ?thesis
  proof cases
    case 1
    then show ?thesis by (simp add: resize_zero cv_invariant_def)
  next
    case 2
    show ?thesis
      using S by (simp add: resize_shrink [OF S 2] cv_invariant_def list_all_iff
          sorted_wrt_filter length_vector_resize)
  next
    case 3
    show ?thesis
      using S L B 3 by (auto simp: resize_grow_default cv_invariant_def list_all_iff)
  qed
qed

lemma clear_invariant: "cv_invariant (clear v)"
  by (simp add: clear_def resize_zero cv_invariant_def)

lemma assign_loop_invariant:
  assumes "sorted_wrt (<) (cv_offsets v)" and "\<forall>x\<in>set (cv_offsets v). x < i"
    and "length (cv_offsets v) = length (cv_values v)"
  shows "sorted_wrt (<) (cv_offsets (assign_loop xs i v))
       \<and> (\<forall>x\<in>set (cv_offsets (assign_loop xs i v)). x < i + length xs)
       \<and> length (cv_offsets (assign_loop xs i v)) = length (cv_values (assign_loop xs i v))
       \<and> cv_size (assign_loop xs i v) = cv_size v"
  using assms
proof (induction xs arbitrary: i v)
  case Nil
  then show ?case by simp
next
  case (Cons x xs)
  let ?v' = "if x \<noteq> 0 then v\<lparr>cv_values := cv_values v @ [x], cv_offsets := cv_offsets v @ [i]\<rparr>
             else v"
  have s: "sorted_wrt (<) (cv_offsets ?v')"
    using Cons.prems by (simp add: sorted_wrt_append)
  have b: "\<forall>y\<in>set (cv_offsets ?v'). y < i + 1"
    using Cons.prems by (auto simp: less_Suc_eq)
  have l: "length (cv_offsets ?v') = length (cv_values ?v')"
    using Cons.prems by simp
  have sz: "cv_size ?v' = cv_size v" by simp
  from Cons.IH [OF s b l] sz show ?case
    by simp
qed

lemma assign_invariant: "cv_invariant (assign v xs)"
  using assign_loop_invariant
    [of "v\<lparr>cv_size := length xs, cv_values := [], cv_offsets := []\<rparr>" 0 xs]
  by (simp add: assign_def cv_invariant_def list_all_iff)

lemma assign_sparse_invariant:
  assumes "sorted_wrt (<) offs" and "\<forall>x\<in>set offs. x < sz" and "length vals \<le> length offs"
  shows "\<exists>v'. assign_sparse v vals offs sz = Some v' \<and> cv_invariant v'"
proof -
  have "\<forall>x\<in>set (take (length vals) offs). x < sz"
    using assms(2) by (meson in_set_takeD)
  then show ?thesis
    using assms by (simp add: assign_sparse_def cv_invariant_def list_all_iff sorted_wrt_take)
qed

text \<open>
  C2, at a vector of logical size 2 that stores no entry (it satisfies the invariant):
  \<open>resize(4, 7)\<close> pads \<open>values_\<close> and \<open>offsets_\<close> up to the new logical size, not by
  the number of new positions, and fills the offsets from index \<open>size_\<close> on
  (\<open>resize_grow_fill\<close> above gives the result for every vector). The result stores four
  entries, two of them at offset 0, and reads 7 at offset 0, where the input vector
  read 0.
\<close>

theorem resize_fill_pads_to_logical_size:
  "cv_invariant \<lparr>cv_values = [], cv_offsets = [], cv_size = 2\<rparr>
   \<and> resize \<lparr>cv_values = [], cv_offsets = [], cv_size = 2\<rparr> 4 (7 :: int)
       = \<lparr>cv_values = [7, 7, 7, 7], cv_offsets = [0, 0, 2, 3], cv_size = 4\<rparr>
   \<and> get \<lparr>cv_values = [], cv_offsets = [], cv_size = 2\<rparr> 0 = (0 :: int)
   \<and> get (resize \<lparr>cv_values = [], cv_offsets = [], cv_size = 2\<rparr> 4 (7 :: int)) 0 = 7"
  by code_simp

text \<open>
  C3, as the claim states it, fails at the write access: the vector with the single
  entry (0, 3) and logical size 2 satisfies the invariant, and after \<open>v[5]\<close> it stores
  the offset 5, which is not below its size.
\<close>

theorem get_mut_beyond_size_counterexample:
  "cv_invariant \<lparr>cv_values = [3 :: int], cv_offsets = [0], cv_size = 2\<rparr>
   \<and> \<not> cv_invariant (fst (get_mut \<lparr>cv_values = [3 :: int], cv_offsets = [0], cv_size = 2\<rparr> 5))"
  by code_simp

text \<open>
  C3, amended. Applied to a vector that satisfies the invariant, each of these yields a
  vector that satisfies it again: assignment from a dense sequence; assignment from a
  sparse input whose offsets are strictly ascending, below the given size and at least
  as many as the values; the write access at an index below the logical size; \<open>resize\<close>
  to length 0, to a smaller length, or with the default fill value; and \<open>clear\<close>.
\<close>

theorem mutations_preserve_invariant:
  assumes "cv_invariant v"
  shows "cv_invariant (assign v xs)
       \<and> (sorted_wrt (<) offs \<and> (\<forall>x\<in>set offs. x < sz) \<and> length vals \<le> length offs \<longrightarrow>
            (\<exists>v'. assign_sparse v vals offs sz = Some v' \<and> cv_invariant v'))
       \<and> (pos < cv_size v \<longrightarrow> cv_invariant (fst (get_mut v pos)))
       \<and> (n = 0 \<or> n < cv_size v \<or> fill = 0 \<longrightarrow> cv_invariant (resize v n fill))
       \<and> cv_invariant (clear v)"
proof -
  have a: "cv_invariant (assign v xs)"
    by (rule assign_invariant)
  have b: "sorted_wrt (<) offs \<and> (\<forall>x\<in>set offs. x < sz) \<and> length vals \<le> length offs \<longrightarrow>
            (\<exists>v'. assign_sparse v vals offs sz = Some v' \<and> cv_invariant v')"
    using assign_sparse_invariant [of offs sz vals v] by blast
  have c: "pos < cv_size v \<longrightarrow> cv_invariant (fst (get_mut v pos))"
    using get_mut_invariant [OF assms] by blast
  have d: "n = 0 \<or> n < cv_size v \<or> fill = 0 \<longrightarrow> cv_invariant (resize v n fill)"
    using resize_invariant [OF assms] by blast
  have e: "cv_invariant (clear v)"
    by (rule clear_invariant)
  from a b c d e show ?thesis by blast
qed

theorem mutations_preserve_invariant_witness:
  "cv_invariant \<lparr>cv_values = [3 :: int, 8], cv_offsets = [0, 4], cv_size = 6\<rparr>
   \<and> cv_invariant (assign \<lparr>cv_values = [3 :: int, 8], cv_offsets = [0, 4], cv_size = 6\<rparr> [0, 2, 0])
   \<and> (\<exists>v'. assign_sparse \<lparr>cv_values = [3 :: int, 8], cv_offsets = [0, 4], cv_size = 6\<rparr>
              [9, 9] [1, 2] 3 = Some v' \<and> cv_invariant v')
   \<and> cv_invariant (fst (get_mut \<lparr>cv_values = [3 :: int, 8], cv_offsets = [0, 4], cv_size = 6\<rparr> 2))
   \<and> cv_invariant (resize \<lparr>cv_values = [3 :: int, 8], cv_offsets = [0, 4], cv_size = 6\<rparr> 3 7)
   \<and> cv_invariant (clear \<lparr>cv_values = [3 :: int, 8], cv_offsets = [0, 4], cv_size = 6\<rparr>)"
proof -
  let ?v = "\<lparr>cv_values = [3 :: int, 8], cv_offsets = [0, 4], cv_size = 6\<rparr>"
  have h: "cv_invariant ?v"
    by (simp add: cv_invariant_def)
  have h1: "sorted_wrt (<) [1, 2 :: nat] \<and> (\<forall>x\<in>set [1, 2 :: nat]. x < 3)
            \<and> length [9 :: int, 9] \<le> length [1, 2 :: nat]"
    by simp
  have h2: "2 < cv_size ?v" by simp
  have h3: "(3 :: nat) = 0 \<or> 3 < cv_size ?v \<or> (7 :: int) = 0" by simp
  from mutations_preserve_invariant
    [OF h, of "[0, 2, 0]" "[1, 2]" 3 "[9, 9]" 2 3 7] h1 h2 h3
  show ?thesis
    using h by blast
qed

subsection \<open>Inner product\<close>

lemma sorted_wrt_drop_Suc_greater:
  assumes "sorted_wrt (<) (xs :: nat list)" and "i < length xs"
  shows "\<forall>z\<in>set (drop (Suc i) xs). xs ! i < z"
proof
  fix z assume "z \<in> set (drop (Suc i) xs)"
  then obtain k where k: "k < length xs - Suc i" "z = xs ! (Suc i + k)"
    by (auto simp: in_set_conv_nth)
  then show "xs ! i < z"
    using assms by (simp add: sorted_wrt_nth_less)
qed

lemma foldl_filter_skip:
  assumes "\<And>acc x. \<not> P x \<Longrightarrow> f acc x = acc"
  shows "foldl f acc xs = foldl f acc (filter P xs)"
  using assms by (induction xs arbitrary: acc) auto

lemma dot_loop_eq:
  fixes a b :: "('a::{zero,plus,times}) compressed_vector"
  assumes "sorted_wrt (<) (cv_offsets a)" and "sorted_wrt (<) (cv_offsets b)"
    and "length (cv_offsets a) = length (cv_values a)"
    and "length (cv_offsets b) = length (cv_values b)"
  shows "dot_loop a b it jt ret =
         foldl (\<lambda>acc off. acc + get a off * get b off) ret
           (filter (\<lambda>off. off \<in> set (drop jt (cv_offsets b))) (drop it (cv_offsets a)))"
  using assms
proof (induction a b it jt ret rule: dot_loop.induct)
  case (1 a b it jt ret)
  note Sa = "1.prems"(1) and Sb = "1.prems"(2) and La = "1.prems"(3) and Lb = "1.prems"(4)
  let ?F = "\<lambda>acc off. acc + get a off * get b off"
  let ?xs = "cv_offsets a" and ?ys = "cv_offsets b"
  show ?case
  proof (cases "it < length ?xs \<and> jt < length ?ys")
    case False
    have "dot_loop a b it jt ret = ret"
      by (subst dot_loop.simps) (simp only: False if_False)
    moreover have "filter (\<lambda>off. off \<in> set (drop jt ?ys)) (drop it ?xs) = []"
      using False by (auto simp: filter_empty_conv)
    ultimately show ?thesis by simp
  next
    case True
    then have i: "it < length ?xs" and j: "jt < length ?ys" by simp_all
    have dx: "drop it ?xs = ?xs ! it # drop (Suc it) ?xs"
      using i by (simp add: Cons_nth_drop_Suc)
    have dy: "drop jt ?ys = ?ys ! jt # drop (Suc jt) ?ys"
      using j by (simp add: Cons_nth_drop_Suc)
    have gx: "\<forall>z\<in>set (drop (Suc it) ?xs). ?xs ! it < z"
      by (rule sorted_wrt_drop_Suc_greater [OF Sa i])
    have gy: "\<forall>z\<in>set (drop (Suc jt) ?ys). ?ys ! jt < z"
      by (rule sorted_wrt_drop_Suc_greater [OF Sb j])
    consider (lt) "?xs ! it < ?ys ! jt" | (gt) "?ys ! jt < ?xs ! it" | (eq) "?xs ! it = ?ys ! jt"
      by fastforce
    then show ?thesis
    proof cases
      case lt
      have unf: "dot_loop a b it jt ret = dot_loop a b (it + 1) jt ret"
        using True lt by (subst dot_loop.simps) simp
      have "?xs ! it \<notin> set (drop jt ?ys)"
        using lt gy by (subst dy) auto
      then have "filter (\<lambda>off. off \<in> set (drop jt ?ys)) (drop it ?xs)
                 = filter (\<lambda>off. off \<in> set (drop jt ?ys)) (drop (Suc it) ?xs)"
        by (subst dx) simp
      then show ?thesis
        unfolding unf using "1.IH"(1) [OF True lt Sa Sb La Lb] by simp
    next
      case gt
      have unf: "dot_loop a b it jt ret = dot_loop a b it (jt + 1) ret"
        using True gt by (subst dot_loop.simps) simp
      have "\<forall>z\<in>set (drop it ?xs). z \<noteq> ?ys ! jt"
        using gt gx by (subst dx) auto
      then have "filter (\<lambda>off. off \<in> set (drop jt ?ys)) (drop it ?xs)
                 = filter (\<lambda>off. off \<in> set (drop (Suc jt) ?ys)) (drop it ?xs)"
        by (subst dy) (auto intro!: filter_cong)
      moreover have "\<not> ?xs ! it < ?ys ! jt" using gt by simp
      ultimately show ?thesis
        unfolding unf using "1.IH"(2) [OF True _ gt Sa Sb La Lb] by simp
    next
      case eq
      have unf: "dot_loop a b it jt ret
                 = dot_loop a b (it + 1) (jt + 1) (ret + cv_values a ! it * cv_values b ! jt)"
        using True eq by (subst dot_loop.simps) simp
      have "\<forall>z\<in>set (drop (Suc it) ?xs). z \<noteq> ?ys ! jt"
        using eq gx by auto
      then have "filter (\<lambda>off. off \<in> set (drop jt ?ys)) (drop (Suc it) ?xs)
                 = filter (\<lambda>off. off \<in> set (drop (Suc jt) ?ys)) (drop (Suc it) ?xs)"
        by (subst dy) (auto intro!: filter_cong)
      moreover have "?xs ! it \<in> set (drop jt ?ys)"
        using eq by (subst dy) simp
      ultimately have fl: "filter (\<lambda>off. off \<in> set (drop jt ?ys)) (drop it ?xs)
                 = ?xs ! it # filter (\<lambda>off. off \<in> set (drop (Suc jt) ?ys)) (drop (Suc it) ?xs)"
        by (subst dx) simp
      have ga: "get a (?xs ! it) = cv_values a ! it"
        by (rule get_stored [OF Sa i refl])
      have gb: "get b (?xs ! it) = cv_values b ! jt"
        using get_stored [OF Sb j refl] eq by simp
      have n1: "\<not> ?xs ! it < ?ys ! jt" and n2: "\<not> ?ys ! jt < ?xs ! it"
        using eq by simp_all
      show ?thesis
        unfolding unf fl using "1.IH"(3) [OF True n1 n2 Sa Sb La Lb] ga gb by simp
    qed
  qed
qed

lemma dot_eq_common:
  fixes a b :: "('a::{zero,plus,times}) compressed_vector"
  assumes "sorted_wrt (<) (cv_offsets a)" and "sorted_wrt (<) (cv_offsets b)"
    and "length (cv_offsets a) = length (cv_values a)"
    and "length (cv_offsets b) = length (cv_values b)"
  shows "dot_agg a b ret =
         foldl (\<lambda>acc off. acc + get a off * get b off) ret
           (filter (\<lambda>off. off \<in> set (cv_offsets b)) (cv_offsets a))"
  using dot_loop_eq [OF assms, of 0 0 ret] by (simp add: dot_agg_def)

lemma common_offsets_eq:
  assumes "sorted_wrt (<) (xs :: nat list)" and "\<forall>x\<in>set xs. x < n"
  shows "filter (\<lambda>off. off \<in> set xs \<and> off \<in> B) [0..<n] = filter (\<lambda>off. off \<in> B) xs"
proof (rule sorted_distinct_set_unique)
  show "sorted (filter (\<lambda>off. off \<in> set xs \<and> off \<in> B) [0..<n])"
    by (simp add: sorted_filter [where f = "\<lambda>x. x", simplified])
  show "distinct (filter (\<lambda>off. off \<in> set xs \<and> off \<in> B) [0..<n])"
    by simp
  show "sorted (filter (\<lambda>off. off \<in> B) xs)"
    using assms(1) by (simp add: strict_sorted_iff sorted_filter [where f = "\<lambda>x. x", simplified])
  show "distinct (filter (\<lambda>off. off \<in> B) xs)"
    using assms(1) by (simp add: strict_sorted_iff)
  show "set (filter (\<lambda>off. off \<in> set xs \<and> off \<in> B) [0..<n]) = set (filter (\<lambda>off. off \<in> B) xs)"
    using assms(2) by auto
qed

lemma dense_dot_eq_common:
  fixes a b :: "('a::{monoid_add,mult_zero}) compressed_vector"
  assumes "sorted_wrt (<) (cv_offsets a)" and "\<forall>x\<in>set (cv_offsets a). x < n"
  shows "dense_dot a b n =
         foldl (\<lambda>acc off. acc + get a off * get b off) 0
           (filter (\<lambda>off. off \<in> set (cv_offsets b)) (cv_offsets a))"
proof -
  let ?F = "\<lambda>acc off. acc + get a off * get b off"
  let ?C = "\<lambda>off. off \<in> set (cv_offsets a) \<and> off \<in> set (cv_offsets b)"
  have skip: "?F acc x = acc" if "\<not> ?C x" for acc x
  proof -
    from that have "get a x = 0 \<or> get b x = 0"
      using get_absent [of x a] get_absent [of x b] by auto
    then show ?thesis by auto
  qed
  have "dense_dot a b n = foldl ?F 0 (filter ?C [0..<n])"
    unfolding dense_dot_def by (rule foldl_filter_skip) (rule skip)
  then show ?thesis
    by (simp only: common_offsets_eq [OF assms])
qed

text \<open>
  C7. For two vectors that satisfy the invariant, \<open>dot a b\<close> and \<open>a * b\<close> return the
  sum, over the offsets stored in both vectors taken in ascending order, of the value of
  \<open>a\<close> at the offset times the value of \<open>b\<close> at the offset, accumulated from \<open>T()\<close>.
  When the two logical sizes are equal, this is the dense inner product of the two
  vectors read through \<open>get\<close>.
\<close>

theorem dot_sparse_inner_product:
  fixes a b :: "('a::{monoid_add,mult_zero}) compressed_vector"
  assumes "cv_invariant a" and "cv_invariant b"
  shows "dot a b = foldl (\<lambda>acc off. acc + get a off * get b off) 0
                     (filter (\<lambda>off. off \<in> set (cv_offsets b)) (cv_offsets a))
       \<and> op_times a b = dot a b
       \<and> (cv_size a = cv_size b \<longrightarrow> dot a b = dense_dot a b (cv_size a))"
proof -
  have Sa: "sorted_wrt (<) (cv_offsets a)"
    and La: "length (cv_offsets a) = length (cv_values a)"
    and Ba: "\<forall>x\<in>set (cv_offsets a). x < cv_size a"
    using assms(1) by (simp_all add: cv_invariant_def list_all_iff)
  have Sb: "sorted_wrt (<) (cv_offsets b)"
    and Lb: "length (cv_offsets b) = length (cv_values b)"
    using assms(2) by (simp_all add: cv_invariant_def)
  have c: "dot a b = foldl (\<lambda>acc off. acc + get a off * get b off) 0
                     (filter (\<lambda>off. off \<in> set (cv_offsets b)) (cv_offsets a))"
    unfolding dot_def by (rule dot_eq_common [OF Sa Sb La Lb])
  have t: "op_times a b = dot a b"
    by (simp add: op_times_def dot_def)
  have d: "dot a b = dense_dot a b (cv_size a)"
    unfolding c by (rule dense_dot_eq_common [OF Sa Ba, symmetric])
  from c t d show ?thesis by blast
qed

theorem dot_sparse_inner_product_witness:
  "cv_invariant \<lparr>cv_values = [5, 7, 9 :: int], cv_offsets = [1, 4, 6], cv_size = 8\<rparr>
   \<and> cv_invariant \<lparr>cv_values = [2, 3, 1, 1 :: int], cv_offsets = [0, 4, 6, 7], cv_size = 8\<rparr>
   \<and> dot \<lparr>cv_values = [5, 7, 9 :: int], cv_offsets = [1, 4, 6], cv_size = 8\<rparr>
         \<lparr>cv_values = [2, 3, 1, 1 :: int], cv_offsets = [0, 4, 6, 7], cv_size = 8\<rparr> = 30
   \<and> dense_dot \<lparr>cv_values = [5, 7, 9 :: int], cv_offsets = [1, 4, 6], cv_size = 8\<rparr>
         \<lparr>cv_values = [2, 3, 1, 1 :: int], cv_offsets = [0, 4, 6, 7], cv_size = 8\<rparr> 8 = 30"
proof -
  let ?a = "\<lparr>cv_values = [5, 7, 9 :: int], cv_offsets = [1, 4, 6], cv_size = 8\<rparr>"
  let ?b = "\<lparr>cv_values = [2, 3, 1, 1 :: int], cv_offsets = [0, 4, 6, 7], cv_size = 8\<rparr>"
  have ha: "cv_invariant ?a" by (simp add: cv_invariant_def)
  have hb: "cv_invariant ?b" by (simp add: cv_invariant_def)
  have sz: "cv_size ?a = cv_size ?b" by simp
  have ev: "dot ?a ?b = 30" by code_simp
  from dot_sparse_inner_product [OF ha hb] sz
  have "dot ?a ?b = dense_dot ?a ?b (cv_size ?a)" by blast
  with ev have "dense_dot ?a ?b 8 = 30" by simp
  with ha hb ev show ?thesis by blast
qed

section \<open>Properties of the marker\<close>

subsection \<open>Dense construction and dense iteration\<close>

lemma unat_of_nat_64: "n < 2 ^ 64 \<Longrightarrow> unat (of_nat n :: 64 word) = n"
  by (simp add: unat_of_nat)

lemma of_nat_64_neq:
  assumes "j < 2 ^ 64" and "k < 2 ^ 64" and "j \<noteq> k"
  shows "(of_nat j :: 64 word) \<noteq> of_nat k"
proof
  assume "(of_nat j :: 64 word) = of_nat k"
  then have "unat (of_nat j :: 64 word) = unat (of_nat k :: 64 word)" by simp
  then show False using assms by (simp add: unat_of_nat_64)
qed

lemma dense_ctor_loop_acc:
  "dense_ctor_loop gs off nzh = nzh @ dense_ctor_loop gs off []"
proof (induction gs arbitrary: off nzh)
  case Nil
  show ?case by simp
next
  case (Cons g gs)
  show ?case
    using Cons.IH [of "off + 1" "nzh @ [\<lparr>offset = off, status = g\<rparr>]"]
      Cons.IH [of "off + 1" "[\<lparr>offset = off, status = g\<rparr>]"]
      Cons.IH [of "off + 1" nzh]
    by simp
qed

lemma dense_ctor_loop_eq:
  "dense_ctor_loop gs (of_nat k) [] =
     map (\<lambda>(j, x). \<lparr>offset = of_nat j, status = x\<rparr>)
       (filter (\<lambda>(j, x). x \<noteq> has_ref) (zip [k..<k + length gs] gs))"
proof (induction gs arbitrary: k)
  case Nil
  show ?case by simp
next
  case (Cons g gs)
  have "[k..<k + length (g # gs)] = k # [Suc k..<Suc k + length gs]"
    by (simp add: upt_conv_Cons del: upt_Suc)
  then have z: "zip [k..<k + length (g # gs)] (g # gs) = (k, g) # zip [Suc k..<Suc k + length gs] gs"
    by (simp only: zip_Cons_Cons)
  have s: "(of_nat k :: 64 word) + 1 = of_nat (Suc k)" by simp
  show ?case
    unfolding z using Cons.IH [of "Suc k"]
      dense_ctor_loop_acc [of gs "of_nat (Suc k)" "[\<lparr>offset = of_nat k, status = g\<rparr>]"]
    by (simp only: dense_ctor_loop.simps s) simp
qed

lemma dense_ctor_loop_offsets:
  assumes "e \<in> set (dense_ctor_loop gs (of_nat k) [])"
  shows "\<exists>j. k \<le> j \<and> j < k + length gs \<and> offset e = of_nat j"
proof -
  from assms obtain j x where "(j, x) \<in> set (zip [k..<k + length gs] gs)"
    and e: "e = \<lparr>offset = of_nat j, status = x\<rparr>"
    unfolding dense_ctor_loop_eq by auto
  then have "j \<in> set [k..<k + length gs]"
    by (meson in_set_zipE)
  then show ?thesis using e by auto
qed

lemma deref_miss:
  "\<not> (it_ptr it \<noteq> [] \<and> it_i it = offset (hd (it_ptr it))) \<Longrightarrow> deref it = has_ref"
  unfolding deref_def by (rule if_not_P)

lemma increment_miss:
  "\<not> (it_ptr it \<noteq> [] \<and> it_i it = offset (hd (it_ptr it)))
   \<Longrightarrow> increment it = it\<lparr>it_i := it_i it + 1\<rparr>"
  unfolding increment_def Let_def by (simp only: if_not_P if_False)

lemma deref_hit:
  "it_ptr it = e # rest \<Longrightarrow> it_i it = offset e
   \<Longrightarrow> deref it = (if status e = is_missing then is_missing else has_alt)"
  by (simp add: deref_def)

lemma increment_hit:
  "it_ptr it = e # rest \<Longrightarrow> it_i it = offset e
   \<Longrightarrow> increment it = it\<lparr>it_ptr := rest, it_i := it_i it + 1\<rparr>"
  by (simp add: increment_def Let_def)

lemma dense_iterate_ctor:
  assumes "k + length gs < 2 ^ 64"
  shows "dense_iterate \<lparr>it_ptr = dense_ctor_loop gs (of_nat k) [], it_i = of_nat k\<rparr>
           \<lparr>it_ptr = p, it_i = of_nat (k + length gs)\<rparr> out = out @ gs"
  using assms
proof (induction gs arbitrary: k out)
  case Nil
  show ?case
    by (subst dense_iterate.simps) (simp add: it_neq_def)
next
  case (Cons g gs)
  let ?e = "\<lparr>it_ptr = p, it_i = of_nat (k + length (g # gs))\<rparr>"
  let ?rest = "dense_ctor_loop gs (of_nat (Suc k)) []"
  have s: "(of_nat k :: 64 word) + 1 = of_nat (Suc k)" by simp
  have "(of_nat k :: 64 word) \<noteq> of_nat (k + length (g # gs))"
    using Cons.prems by (intro of_nat_64_neq) auto
  then have neq: "it_neq \<lparr>it_ptr = xs, it_i = of_nat k\<rparr> ?e" for xs
    by (simp only: it_neq_def const_iterator.simps not_False_eq_True)
  have IH: "dense_iterate \<lparr>it_ptr = ?rest, it_i = of_nat (Suc k)\<rparr> ?e (out @ [g])
            = (out @ [g]) @ gs"
    using Cons.IH [of "Suc k" "out @ [g]"] Cons.prems by simp
  show ?case
  proof (cases "g = has_ref")
    case True
    let ?it = "\<lparr>it_ptr = ?rest, it_i = of_nat k\<rparr>"
    have p: "dense_ctor_loop (g # gs) (of_nat k) [] = ?rest"
      using True by (simp only: dense_ctor_loop.simps s) simp
    have nohit: "\<not> (it_ptr ?it \<noteq> [] \<and> it_i ?it = offset (hd (it_ptr ?it)))"
    proof
      assume h: "it_ptr ?it \<noteq> [] \<and> it_i ?it = offset (hd (it_ptr ?it))"
      then have "hd ?rest \<in> set ?rest" by simp
      then obtain j where j: "Suc k \<le> j" "j < Suc k + length gs" "offset (hd ?rest) = of_nat j"
        using dense_ctor_loop_offsets by blast
      have "(of_nat j :: 64 word) \<noteq> of_nat k"
        using j Cons.prems by (intro of_nat_64_neq) auto
      with h j(3) show False by simp
    qed
    have d: "deref ?it = g"
      using deref_miss [OF nohit] True by simp
    have i: "increment ?it = \<lparr>it_ptr = ?rest, it_i = of_nat (Suc k)\<rparr>"
      using increment_miss [OF nohit] by (simp add: s del: of_nat_Suc)
    have "dense_iterate ?it ?e out = dense_iterate (increment ?it) ?e (out @ [deref ?it])"
      using neq [of ?rest] by (subst dense_iterate.simps) (simp only: if_True)
    then show ?thesis
      unfolding p d i using IH by simp
  next
    case False
    let ?hd = "\<lparr>offset = of_nat k, status = g\<rparr>"
    let ?it = "\<lparr>it_ptr = ?hd # ?rest, it_i = of_nat k\<rparr>"
    have p: "dense_ctor_loop (g # gs) (of_nat k) [] = ?hd # ?rest"
      using False dense_ctor_loop_acc [of gs "of_nat (Suc k)" "[?hd]"]
      by (simp only: dense_ctor_loop.simps s) simp
    have "deref ?it = (if status ?hd = is_missing then is_missing else has_alt)"
      by (rule deref_hit [where rest = ?rest]) simp_all
    then have d: "deref ?it = g"
      using False by (cases g) simp_all
    have "increment ?it = ?it\<lparr>it_ptr := ?rest, it_i := it_i ?it + 1\<rparr>"
      by (rule increment_hit [where e = ?hd]) simp_all
    then have i: "increment ?it = \<lparr>it_ptr = ?rest, it_i = of_nat (Suc k)\<rparr>"
      by (simp add: s del: of_nat_Suc)
    have "dense_iterate ?it ?e out = dense_iterate (increment ?it) ?e (out @ [deref ?it])"
      using neq [of "?hd # ?rest"] by (subst dense_iterate.simps) (simp only: if_True)
    then show ?thesis
      unfolding p d i using IH by simp
  qed
qed

text \<open>
  C1. For every dense sequence \<open>s\<close> of allele statuses (its length fits the 64-bit
  \<open>haplotype_count_\<close>, as the length of every sequence in memory does), the marker built
  from \<open>s\<close> by the dense constructor, iterated from \<open>begin()\<close> to \<open>end()\<close>, yields
  \<open>s\<close> itself: \<open>|s|\<close> statuses, element for element. \<open>haplotype_count()\<close> is \<open>|s|\<close>,
  and the stored entries are the statuses of \<open>s\<close> other than \<open>HAS_REF\<close>, each with
  its offset, in ascending order.
\<close>

theorem dense_roundtrip:
  assumes "length s < 2 ^ 64"
  shows "dense_iterate (marker_begin (marker_dense pos r a s))
           (marker_end (marker_dense pos r a s)) [] = s
       \<and> unat (haplotype_count (marker_dense pos r a s)) = length s
       \<and> non_zero_haplotypes (marker_dense pos r a s) =
           map (\<lambda>(j, x). \<lparr>offset = of_nat j, status = x\<rparr>)
             (filter (\<lambda>(j, x). x \<noteq> has_ref) (zip [0..<length s] s))"
proof -
  have a: "dense_iterate (marker_begin (marker_dense pos r a s))
           (marker_end (marker_dense pos r a s)) [] = s"
    using dense_iterate_ctor [of 0 s "[]" "[]"] assms
    by (simp add: marker_begin_def marker_end_def marker_dense_def)
  have b: "unat (haplotype_count (marker_dense pos r a s)) = length s"
    using assms by (simp add: marker_dense_def unat_of_nat_64)
  have c: "non_zero_haplotypes (marker_dense pos r a s) =
           map (\<lambda>(j, x). \<lparr>offset = of_nat j, status = x\<rparr>)
             (filter (\<lambda>(j, x). x \<noteq> has_ref) (zip [0..<length s] s))"
    using dense_ctor_loop_eq [of s 0] by (simp add: marker_dense_def)
  from a b c show ?thesis by blast
qed

theorem dense_roundtrip_witness:
  "length [has_ref, has_alt, has_ref, has_ref, is_missing, has_ref] < (2 :: nat) ^ 64
   \<and> dense_iterate
       (marker_begin (marker_dense 12345 [0x41] [0x47]
          [has_ref, has_alt, has_ref, has_ref, is_missing, has_ref]))
       (marker_end (marker_dense 12345 [0x41] [0x47]
          [has_ref, has_alt, has_ref, has_ref, is_missing, has_ref])) []
     = [has_ref, has_alt, has_ref, has_ref, is_missing, has_ref]
   \<and> unat (haplotype_count (marker_dense 12345 [0x41] [0x47]
          [has_ref, has_alt, has_ref, has_ref, is_missing, has_ref])) = 6"
proof -
  have h: "length [has_ref, has_alt, has_ref, has_ref, is_missing, has_ref] < (2 :: nat) ^ 64"
    by simp
  from dense_roundtrip [OF h, of 12345 "[0x41]" "[0x47]"] h show ?thesis
    by simp
qed

subsection \<open>Sparse construction\<close>

lemma sparse_ctor_loop_eq:
  "sparse_ctor_loop gts nzh =
     (if \<exists>g\<in>set gts. status g = has_ref then Inl (range_error ''FOOBAR'')
      else Inr (nzh @ gts))"
  by (induction gts arbitrary: nzh) auto

text \<open>
  C6. The sparse constructor throws a \<open>std::range_error\<close> (the spec's \<open>INVALID_INPUT\<close>)
  if an input entry has status \<open>HAS_REF\<close>, and throws one if the given haplotype count
  is smaller than the number of entries; otherwise it succeeds, and the marker holds the
  given entries and the given haplotype count unchanged.
\<close>

theorem marker_sparse_result:
  "((\<exists>g\<in>set gts. status g = has_ref) \<longrightarrow>
      marker_sparse pos r a gts hc = Inl (range_error ''FOOBAR''))
   \<and> (unat hc < length gts \<longrightarrow>
      marker_sparse pos r a gts hc =
        Inl (range_error (if \<exists>g\<in>set gts. status g = has_ref then ''FOOBAR'' else ''FOOBAR2'')))
   \<and> ((\<forall>g\<in>set gts. status g \<noteq> has_ref) \<and> length gts \<le> unat hc \<longrightarrow>
      marker_sparse pos r a gts hc =
        Inr \<lparr>non_zero_haplotypes = gts, ref = r, alt = a, position = pos,
             haplotype_count = hc\<rparr>)"
  by (auto simp: marker_sparse_def sparse_ctor_loop_eq)

theorem marker_sparse_result_witness:
  "marker_sparse 7 [0x41] [0x47]
     [\<lparr>offset = 0, status = has_alt\<rparr>, \<lparr>offset = 1, status = has_ref\<rparr>] 8
     = Inl (range_error ''FOOBAR'')
   \<and> marker_sparse 7 [0x41] [0x47]
     [\<lparr>offset = 0, status = has_alt\<rparr>, \<lparr>offset = 3, status = is_missing\<rparr>] 1
     = Inl (range_error ''FOOBAR2'')
   \<and> marker_sparse 7 [0x41] [0x47]
     [\<lparr>offset = 0, status = has_alt\<rparr>, \<lparr>offset = 3, status = is_missing\<rparr>] 8
     = Inr \<lparr>non_zero_haplotypes = [\<lparr>offset = 0, status = has_alt\<rparr>, \<lparr>offset = 3, status = is_missing\<rparr>],
            ref = [0x41], alt = [0x47], position = 7, haplotype_count = 8\<rparr>"
proof -
  let ?bad = "[\<lparr>offset = 0, status = has_alt\<rparr>, \<lparr>offset = 1, status = has_ref\<rparr>]"
  let ?ok = "[\<lparr>offset = 0, status = has_alt\<rparr>, \<lparr>offset = 3, status = is_missing\<rparr>]"
  have h1: "\<exists>g\<in>set ?bad. status g = has_ref" by simp
  have h2: "unat (1 :: 64 word) < length ?ok" by simp
  have h2': "\<not> (\<exists>g\<in>set ?ok. status g = has_ref)" by simp
  have h3: "(\<forall>g\<in>set ?ok. status g \<noteq> has_ref) \<and> length ?ok \<le> unat (8 :: 64 word)" by simp
  have a: "marker_sparse 7 [0x41] [0x47] ?bad 8 = Inl (range_error ''FOOBAR'')"
    using marker_sparse_result [of ?bad 7 "[0x41]" "[0x47]" 8] h1 by blast
  have "marker_sparse 7 [0x41] [0x47] ?ok 1 =
        Inl (range_error (if \<exists>g\<in>set ?ok. status g = has_ref then ''FOOBAR'' else ''FOOBAR2''))"
    using marker_sparse_result [of ?ok 7 "[0x41]" "[0x47]" 1] h2 by blast
  then have b: "marker_sparse 7 [0x41] [0x47] ?ok 1 = Inl (range_error ''FOOBAR2'')"
    using h2' by (simp only: if_False)
  have c: "marker_sparse 7 [0x41] [0x47] ?ok 8 =
        Inr \<lparr>non_zero_haplotypes = ?ok, ref = [0x41], alt = [0x47], position = 7,
             haplotype_count = 8\<rparr>"
    using marker_sparse_result [of ?ok 7 "[0x41]" "[0x47]" 8] h3 by blast
  from a b c show ?thesis by blast
qed

section \<open>Properties of the allele frequency\<close>

lemma allele_frequency_loop_eq:
  "allele_frequency_loop hs c t =
     (c + of_nat (length (filter is_allele hs)),
      t - of_nat (length (filter (\<lambda>h. \<not> is_allele h) hs)))"
  by (induction hs arbitrary: c t) (simp_all add: algebra_simps)

lemma count_split:
  "length (filter P xs) + length (filter (\<lambda>x. \<not> P x) xs) = length xs"
  by (induction xs) auto

text \<open>
  C5. For a marker that stores no more entries than it has haplotypes (an invariant of
  markers), \<open>calculate_allele_frequency\<close> divides \<open>A\<close> by \<open>haplotype_count - M\<close>, where
  \<open>A\<close> counts the stored entries with status \<open>HAS_ALT\<close> and \<open>M\<close> those with
  \<open>IS_MISSING\<close>; the counters do not wrap. When \<open>haplotype_count - M\<close> is zero, \<open>A\<close> is
  zero as well and the result is \<open>NaN\<close>.
\<close>

theorem allele_frequency_value:
  assumes "length (cvcf_non_zero_haplotypes m) \<le> cvcf_haplotype_count m"
  shows "(cvcf_haplotype_count m - missing_count m = 0 \<longrightarrow> calculate_allele_frequency m = NaN)
       \<and> (cvcf_haplotype_count m - missing_count m \<noteq> 0 \<longrightarrow>
            (\<exists>n d. calculate_allele_frequency m = Quotient n d
                 \<and> unat n = alt_count m
                 \<and> unat d = cvcf_haplotype_count m - missing_count m))"
proof -
  let ?H = "sample_count m * ucast (ploidy_level m)"
  let ?A = "alt_count m" and ?M = "missing_count m"
  have split: "?A + ?M = length (cvcf_non_zero_haplotypes m)"
    unfolding alt_count_def missing_count_def by (rule count_split)
  have AM: "?A + ?M \<le> unat ?H"
    using assms split by (simp add: cvcf_haplotype_count_def)
  have Hb: "unat ?H < 2 ^ 64"
    using unsigned_less [of ?H, where 'a = nat] by simp
  have res: "calculate_allele_frequency m = double_div (of_nat ?A) (?H - of_nat ?M)"
    by (simp add: calculate_allele_frequency_def allele_frequency_loop_eq
        alt_count_def missing_count_def)
  have den: "?H - of_nat ?M = (of_nat (unat ?H - ?M) :: 64 word)"
    using AM by (simp add: of_nat_diff)
  have un: "unat (of_nat ?A :: 64 word) = ?A"
    using AM Hb by (intro unat_of_nat_64) simp
  have ud: "unat (of_nat (unat ?H - ?M) :: 64 word) = unat ?H - ?M"
    using Hb by (intro unat_of_nat_64) simp
  show ?thesis
  proof (cases "unat ?H - ?M = 0")
    case True
    then have "?A = 0" using AM by simp
    then have "calculate_allele_frequency m = NaN"
      unfolding res den using True by (simp add: double_div_def)
    then show ?thesis
      using True by (simp add: cvcf_haplotype_count_def)
  next
    case False
    have "(of_nat (unat ?H - ?M) :: 64 word) \<noteq> 0"
      using False ud by (metis unat_0)
    then have "calculate_allele_frequency m
               = Quotient (of_nat ?A) (of_nat (unat ?H - ?M))"
      unfolding res den by (simp add: double_div_def)
    then show ?thesis
      using False un ud by (auto simp: cvcf_haplotype_count_def)
  qed
qed

theorem allele_frequency_value_witness:
  "length (cvcf_non_zero_haplotypes
      \<lparr>cvcf_non_zero_haplotypes = [\<lparr>is_allele = True, hap_offset = 1\<rparr>,
                                    \<lparr>is_allele = False, hap_offset = 4\<rparr>],
       sample_count = 3, ploidy_level = 2\<rparr>)
     \<le> cvcf_haplotype_count
      \<lparr>cvcf_non_zero_haplotypes = [\<lparr>is_allele = True, hap_offset = 1\<rparr>,
                                    \<lparr>is_allele = False, hap_offset = 4\<rparr>],
       sample_count = 3, ploidy_level = 2\<rparr>
   \<and> (\<exists>n d. calculate_allele_frequency
      \<lparr>cvcf_non_zero_haplotypes = [\<lparr>is_allele = True, hap_offset = 1\<rparr>,
                                    \<lparr>is_allele = False, hap_offset = 4\<rparr>],
       sample_count = 3, ploidy_level = 2\<rparr> = Quotient n d \<and> unat n = 1 \<and> unat d = 5)
   \<and> calculate_allele_frequency
      \<lparr>cvcf_non_zero_haplotypes = [\<lparr>is_allele = False, hap_offset = 0\<rparr>,
                                    \<lparr>is_allele = False, hap_offset = 1\<rparr>],
       sample_count = 1, ploidy_level = 2\<rparr> = NaN"
proof -
  let ?m = "\<lparr>cvcf_non_zero_haplotypes = [\<lparr>is_allele = True, hap_offset = 1\<rparr>,
                                          \<lparr>is_allele = False, hap_offset = 4\<rparr>],
             sample_count = 3, ploidy_level = 2\<rparr>"
  let ?z = "\<lparr>cvcf_non_zero_haplotypes = [\<lparr>is_allele = False, hap_offset = 0\<rparr>,
                                          \<lparr>is_allele = False, hap_offset = 1\<rparr>],
             sample_count = 1, ploidy_level = 2\<rparr>"
  have hm: "cvcf_haplotype_count ?m = 6" by (simp add: cvcf_haplotype_count_def)
  have am: "alt_count ?m = 1" by (simp add: alt_count_def)
  have mm: "missing_count ?m = 1" by (simp add: missing_count_def)
  have h1: "length (cvcf_non_zero_haplotypes ?m) \<le> cvcf_haplotype_count ?m"
    unfolding hm by simp
  have hz: "cvcf_haplotype_count ?z = 2" by (simp add: cvcf_haplotype_count_def)
  have mz: "missing_count ?z = 2" by (simp add: missing_count_def)
  have h2: "length (cvcf_non_zero_haplotypes ?z) \<le> cvcf_haplotype_count ?z"
    unfolding hz by simp
  have a: "\<exists>n d. calculate_allele_frequency ?m = Quotient n d \<and> unat n = 1 \<and> unat d = 5"
    using allele_frequency_value [OF h1] unfolding hm am mm by simp
  have b: "calculate_allele_frequency ?z = NaN"
    using allele_frequency_value [OF h2] unfolding hz mz by simp
  from h1 a b show ?thesis by blast
qed

section \<open>Properties of the writer\<close>

subsection \<open>The header\<close>

lemma copy_out_bytes: "os_bytes (copy_out s os) = os_bytes os @ s"
  unfolding copy_out_def by (induction s arbitrary: os) (simp_all add: out_it_put_def)

lemma copy_out_good: "good (copy_out s os) = good os"
  unfolding copy_out_def by (induction s arbitrary: os) (simp_all add: out_it_put_def good_def)

lemma varint_encode_bytes: "os_bytes (varint_encode v os) = os_bytes os @ varint v"
  by (simp add: varint_encode_def copy_out_bytes)

lemma varint_encode_good: "good (varint_encode v os) = good os"
  by (simp add: varint_encode_def copy_out_good)

lemma ostream_write_bytes: "good os \<Longrightarrow> os_bytes (ostream_write os s) = os_bytes os @ s"
  by (simp add: ostream_write_def)

lemma ostream_write_good: "good os \<Longrightarrow> good (ostream_write os s)"
  by (simp add: ostream_write_def good_def)

lemma write_sample_bytes:
  "good os \<Longrightarrow> os_bytes (write_sample name os) = os_bytes os @ varint (of_nat (length name)) @ name"
  by (simp add: write_sample_def ostream_write_bytes varint_encode_good varint_encode_bytes)

lemma write_sample_good: "good os \<Longrightarrow> good (write_sample name os)"
  by (simp add: write_sample_def ostream_write_good varint_encode_good)

lemma fold_write_sample:
  "good os \<Longrightarrow>
   good (fold write_sample samples os)
   \<and> os_bytes (fold write_sample samples os)
     = os_bytes os @ concat (map (\<lambda>name. varint (of_nat (length name)) @ name) samples)"
proof (induction samples arbitrary: os)
  case Nil
  then show ?case by simp
next
  case (Cons name samples)
  from Cons.IH [OF write_sample_good [OF Cons.prems, of name]]
  show ?case
    by (simp add: write_sample_bytes [OF Cons.prems])
qed

lemma varint_zero: "varint 0 = [0]"
  by (simp add: varint_def varint_bytes.simps)

text \<open>
  C9. Constructed on a good stream, the writer appends to the sink, in this order and
  nothing else: the 8 bytes \<open>c v c f 00 01 00 00\<close>; the varint of the chromosome's
  length and the chromosome's bytes; the varint of the ploidy; the varint of the number
  of samples and, for each sample name in order, the varint of its length and its bytes;
  and the varint of the number of metadata fields followed by that many descriptors. The
  number of metadata fields is always 0, encoded as the single byte \<open>00\<close>, so no
  descriptor follows. The stream is still good afterwards.
\<close>

theorem writer_ctor_emits_header:
  assumes "good os"
  shows "os_bytes (output_stream (writer_ctor os chromosome ploidy samples)) =
           os_bytes os
           @ [0x63, 0x76, 0x63, 0x66, 0x00, 0x01, 0x00, 0x00]
           @ varint (of_nat (length chromosome)) @ chromosome
           @ varint (ucast ploidy)
           @ varint (of_nat (length samples))
           @ concat (map (\<lambda>name. varint (of_nat (length name)) @ name) samples)
           @ varint 0
       \<and> varint 0 = [0]
       \<and> good (output_stream (writer_ctor os chromosome ploidy samples))"
proof -
  let ?os1 = "ostream_write os version_string"
  let ?os2 = "varint_encode (of_nat (length chromosome)) ?os1"
  let ?os3 = "copy_out chromosome ?os2"
  let ?os4 = "varint_encode (ucast ploidy) ?os3"
  let ?os5 = "varint_encode (of_nat (length samples)) ?os4"
  let ?os6 = "fold write_sample samples ?os5"
  let ?os7 = "varint_encode 0 ?os6"
  have g1: "good ?os1" by (rule ostream_write_good [OF assms])
  have g5: "good ?os5" using g1 by (simp add: varint_encode_good copy_out_good)
  have b5: "os_bytes ?os5 = os_bytes os @ version_string
            @ varint (of_nat (length chromosome)) @ chromosome
            @ varint (ucast ploidy) @ varint (of_nat (length samples))"
    by (simp add: varint_encode_bytes copy_out_bytes ostream_write_bytes [OF assms])
  note f = fold_write_sample [OF g5, of samples]
  have b7: "os_bytes ?os7 = os_bytes ?os5
            @ concat (map (\<lambda>name. varint (of_nat (length name)) @ name) samples) @ varint 0"
    using f by (simp add: varint_encode_bytes)
  have g7: "good ?os7" using f by (simp add: varint_encode_good)
  have out: "output_stream (writer_ctor os chromosome ploidy samples) = ?os7"
    by (simp add: writer_ctor_def Let_def)
  show ?thesis
    unfolding out b7 b5 using g7 by (simp add: version_string_def varint_zero)
qed

theorem writer_ctor_emits_header_witness:
  "good \<lparr>os_bytes = [], os_failbit = False, os_badbit = False, os_eofbit = False\<rparr>
   \<and> os_bytes (output_stream (writer_ctor
         \<lparr>os_bytes = [], os_failbit = False, os_badbit = False, os_eofbit = False\<rparr>
         [0x32, 0x30] 2 [ [0x73, 0x31], [0x73, 0x32] ]))
     = [0x63, 0x76, 0x63, 0x66, 0x00, 0x01, 0x00, 0x00,
        0x02, 0x32, 0x30, 0x02, 0x02, 0x02, 0x73, 0x31, 0x02, 0x73, 0x32, 0x00]"
proof -
  let ?os = "\<lparr>os_bytes = [], os_failbit = False, os_badbit = False, os_eofbit = False\<rparr>"
  have h: "good ?os" by (simp add: good_def)
  have v: "varint 2 = [2]" by code_simp
  have u: "(ucast (2 :: 8 word) :: 64 word) = 2" by simp
  have l: "(of_nat (length [a, b]) :: 64 word) = 2" for a b :: "'x" by simp
  from writer_ctor_emits_header [OF h, of "[0x32, 0x30]" 2 "[ [0x73, 0x31], [0x73, 0x32] ]"]
  have "os_bytes (output_stream (writer_ctor ?os [0x32, 0x30] 2 [ [0x73, 0x31], [0x73, 0x32] ]))
        = os_bytes ?os @ [0x63, 0x76, 0x63, 0x66, 0x00, 0x01, 0x00, 0x00]
          @ varint 2 @ [0x32, 0x30] @ varint 2 @ varint 2
          @ (varint 2 @ [0x73, 0x31]) @ (varint 2 @ [0x73, 0x32]) @ [0]"
    unfolding l u by simp
  then show ?thesis
    using h unfolding v by simp
qed

subsection \<open>Writing markers\<close>

text \<open>
  The product \<open>sample_size_ * ploidy_level_\<close> is computed in \<open>std::uint64_t\<close>; it is the
  product of the two numbers unless that does not fit 64 bits.
\<close>

lemma product_no_wrap:
  fixes s :: "64 word" and p :: "8 word"
  assumes "unat s * unat p < 2 ^ 64"
  shows "unat (s * ucast p) = unat s * unat p"
proof -
  have "unat (ucast p :: 64 word) = unat p"
  proof -
    have "unat (ucast p :: 64 word) = take_bit 64 (unat p)"
      by (simp add: unsigned_ucast_eq)
    moreover have "unat p < 2 ^ 64"
      using unsigned_less [of p, where 'a = nat] by simp
    ultimately show ?thesis
      by (simp add: take_bit_nat_eq_self)
  qed
  then show ?thesis
    using assms by (simp add: unat_word_ariths)
qed

lemma mismatch_no_wrap:
  fixes h s :: "64 word" and p :: "8 word"
  assumes "unat s * unat p < 2 ^ 64"
  shows "h \<noteq> s * ucast p \<longleftrightarrow> unat h \<noteq> unat s * unat p"
  using product_no_wrap [OF assms] by (auto simp: word_unat_eq_iff)

lemma op_shift_left_not_good:
  "\<not> good (output_stream w) \<Longrightarrow> op_shift_left mw w m = w"
  by (simp add: op_shift_left_def)

lemma fail_not_good: "fail os \<Longrightarrow> \<not> good os"
  by (auto simp: fail_def good_def)

lemma write_all_failed: "fail (output_stream w) \<Longrightarrow> write_all mw w ms = w"
  by (induction ms) (simp_all add: op_shift_left_not_good fail_not_good)

text \<open>
  C4. A call of \<open>operator<<\<close> on a stream that is not good changes nothing. On a good
  stream, a marker whose \<open>haplotype_count()\<close> differs from \<open>sample_size_ * ploidy_level_\<close>
  (the product the code computes, in \<open>std::uint64_t\<close>) sets the stream's \<open>failbit\<close> and
  adds no byte to the output; otherwise the stream is handed to \<open>marker::write\<close>. Once
  the stream has failed, any sequence of further calls leaves the output bytes as they
  are and the stream failed. Whenever the product of the sample count and the ploidy fits
  64 bits, the comparison the code makes is the comparison of the numbers.
\<close>

theorem op_shift_left_behaviour:
  "(\<not> good (output_stream w) \<longrightarrow> op_shift_left mw w m = w)
   \<and> (good (output_stream w)
        \<and> haplotype_count m \<noteq> sample_size w * ucast (writer_ploidy_level w) \<longrightarrow>
        fail (output_stream (op_shift_left mw w m))
        \<and> os_bytes (output_stream (op_shift_left mw w m)) = os_bytes (output_stream w))
   \<and> (good (output_stream w)
        \<and> haplotype_count m = sample_size w * ucast (writer_ploidy_level w) \<longrightarrow>
        output_stream (op_shift_left mw w m) = mw (output_stream w) m)
   \<and> (fail (output_stream w) \<longrightarrow>
        os_bytes (output_stream (write_all mw w ms)) = os_bytes (output_stream w)
        \<and> fail (output_stream (write_all mw w ms)))
   \<and> (unat (sample_size w) * unat (writer_ploidy_level w) < 2 ^ 64 \<longrightarrow>
        (haplotype_count m \<noteq> sample_size w * ucast (writer_ploidy_level w)
         \<longleftrightarrow> unat (haplotype_count m)
               \<noteq> unat (sample_size w) * unat (writer_ploidy_level w)))"
proof -
  have a: "(\<not> good (output_stream w) \<longrightarrow> op_shift_left mw w m = w)
   \<and> (good (output_stream w)
        \<and> haplotype_count m \<noteq> sample_size w * ucast (writer_ploidy_level w) \<longrightarrow>
        fail (output_stream (op_shift_left mw w m))
        \<and> os_bytes (output_stream (op_shift_left mw w m)) = os_bytes (output_stream w))
   \<and> (good (output_stream w)
        \<and> haplotype_count m = sample_size w * ucast (writer_ploidy_level w) \<longrightarrow>
        output_stream (op_shift_left mw w m) = mw (output_stream w) m)
   \<and> (fail (output_stream w) \<longrightarrow>
        os_bytes (output_stream (write_all mw w ms)) = os_bytes (output_stream w)
        \<and> fail (output_stream (write_all mw w ms)))"
    by (simp add: op_shift_left_def setstate_failbit_def fail_def write_all_failed)
  have b: "unat (sample_size w) * unat (writer_ploidy_level w) < 2 ^ 64 \<longrightarrow>
        (haplotype_count m \<noteq> sample_size w * ucast (writer_ploidy_level w)
         \<longleftrightarrow> unat (haplotype_count m)
               \<noteq> unat (sample_size w) * unat (writer_ploidy_level w))"
    using mismatch_no_wrap [of "sample_size w" "writer_ploidy_level w" "haplotype_count m"]
    by blast
  from a b show ?thesis by blast
qed

theorem op_shift_left_behaviour_witness:
  "good (output_stream
      \<lparr>output_stream = \<lparr>os_bytes = [1, 2, 3], os_failbit = False, os_badbit = False,
                         os_eofbit = False\<rparr>,
       sample_size = 2, writer_ploidy_level = 2\<rparr>)
   \<and> os_bytes (output_stream (op_shift_left (\<lambda>os m. os\<lparr>os_bytes := os_bytes os @ ref m\<rparr>)
      \<lparr>output_stream = \<lparr>os_bytes = [1, 2, 3], os_failbit = False, os_badbit = False,
                         os_eofbit = False\<rparr>,
       sample_size = 2, writer_ploidy_level = 2\<rparr>
      \<lparr>non_zero_haplotypes = [], ref = [0x41], alt = [0x47], position = 9,
       haplotype_count = 3\<rparr>)) = [1, 2, 3]
   \<and> fail (output_stream (op_shift_left (\<lambda>os m. os\<lparr>os_bytes := os_bytes os @ ref m\<rparr>)
      \<lparr>output_stream = \<lparr>os_bytes = [1, 2, 3], os_failbit = False, os_badbit = False,
                         os_eofbit = False\<rparr>,
       sample_size = 2, writer_ploidy_level = 2\<rparr>
      \<lparr>non_zero_haplotypes = [], ref = [0x41], alt = [0x47], position = 9,
       haplotype_count = 3\<rparr>))
   \<and> os_bytes (output_stream (op_shift_left (\<lambda>os m. os\<lparr>os_bytes := os_bytes os @ ref m\<rparr>)
      \<lparr>output_stream = \<lparr>os_bytes = [1, 2, 3], os_failbit = False, os_badbit = False,
                         os_eofbit = False\<rparr>,
       sample_size = 2, writer_ploidy_level = 2\<rparr>
      \<lparr>non_zero_haplotypes = [], ref = [0x41], alt = [0x47], position = 9,
       haplotype_count = 4\<rparr>)) = [1, 2, 3, 0x41]
   \<and> os_bytes (output_stream (write_all (\<lambda>os m. os\<lparr>os_bytes := os_bytes os @ ref m\<rparr>)
      \<lparr>output_stream = \<lparr>os_bytes = [1, 2, 3], os_failbit = True, os_badbit = False,
                         os_eofbit = False\<rparr>,
       sample_size = 2, writer_ploidy_level = 2\<rparr>
      [\<lparr>non_zero_haplotypes = [], ref = [0x41], alt = [0x47], position = 9,
        haplotype_count = 4\<rparr>,
       \<lparr>non_zero_haplotypes = [], ref = [0x41], alt = [0x47], position = 9,
        haplotype_count = 3\<rparr>])) = [1, 2, 3]"
proof -
  let ?mw = "\<lambda>os m. os\<lparr>os_bytes := os_bytes os @ ref m\<rparr>"
  let ?w = "\<lparr>output_stream = \<lparr>os_bytes = [1, 2, 3], os_failbit = False, os_badbit = False,
                                os_eofbit = False\<rparr>,
              sample_size = 2, writer_ploidy_level = 2\<rparr>"
  let ?f = "\<lparr>output_stream = \<lparr>os_bytes = [1, 2, 3], os_failbit = True, os_badbit = False,
                                os_eofbit = False\<rparr>,
              sample_size = 2, writer_ploidy_level = 2\<rparr>"
  let ?m3 = "\<lparr>non_zero_haplotypes = [], ref = [0x41], alt = [0x47], position = 9,
               haplotype_count = 3\<rparr>"
  let ?m4 = "\<lparr>non_zero_haplotypes = [], ref = [0x41], alt = [0x47], position = 9,
               haplotype_count = 4\<rparr>"
  have g: "good (output_stream ?w)" by (simp add: good_def)
  have nw: "unat (sample_size ?w) * unat (writer_ploidy_level ?w) < 2 ^ 64" by simp
  have d3: "unat (haplotype_count ?m3)
            \<noteq> unat (sample_size ?w) * unat (writer_ploidy_level ?w)" by simp
  have n3: "haplotype_count ?m3 \<noteq> sample_size ?w * ucast (writer_ploidy_level ?w)"
    using op_shift_left_behaviour [of ?w ?mw ?m3 "[]"] nw d3 by blast
  have e4: "haplotype_count ?m4 = sample_size ?w * ucast (writer_ploidy_level ?w)" by simp
  have ff: "fail (output_stream ?f)" by (simp add: fail_def)
  have a: "fail (output_stream (op_shift_left ?mw ?w ?m3))
           \<and> os_bytes (output_stream (op_shift_left ?mw ?w ?m3)) = os_bytes (output_stream ?w)"
    using op_shift_left_behaviour [of ?w ?mw ?m3 "[]"] g n3 by blast
  have b: "output_stream (op_shift_left ?mw ?w ?m4) = ?mw (output_stream ?w) ?m4"
    using op_shift_left_behaviour [of ?w ?mw ?m4 "[]"] g e4 by blast
  have c: "os_bytes (output_stream (write_all ?mw ?f [?m4, ?m3])) = os_bytes (output_stream ?f)"
    using op_shift_left_behaviour [of ?f ?mw ?m3 "[?m4, ?m3]"] ff by blast
  from g a b c show ?thesis by simp
qed

end
